theory Spec2Isabelle
  imports Main "HOL-Library.Word"
begin

section \<open>The Go library functions the parser calls\<close>

text \<open>
  A Go \<open>string\<close> is a byte sequence and \<open>len\<close> counts bytes: it is modelled as
  \<^typ>\<open>string\<close>, a list of 8-bit characters.
\<close>

subsection \<open>Package regexp\<close>

text \<open>
  The patterns of \<open>logs/parse.go\<close> use single-character classes, literals, the greedy
  quantifiers \<open>?\<close>, \<open>*\<close>, \<open>+\<close> and \<open>{n}\<close>, capturing and non-capturing groups
  and the anchors \<open>^\<close> and \<open>$\<close> (no flags, so \<open>.\<close> excludes the newline and
  \<open>$\<close> is the end of the text). \<open>*\<close> and \<open>+\<close> are only ever applied to a single
  character class. The classes \<open>\d\<close>, \<open>\w\<close> and \<open>\s\<close> are the ASCII ones.
  A class is matched against one byte: \<open>.\<close> and \<open>\S\<close> only occur under \<open>*\<close> and
  \<open>+\<close>, where matching the bytes of a multi-byte rune one at a time covers the same span.
\<close>

definition between :: "nat \<Rightarrow> char \<Rightarrow> nat \<Rightarrow> bool" where
  "between lo x hi = (lo \<le> of_char x \<and> (of_char x :: nat) \<le> hi)"

definition isDigit :: "char \<Rightarrow> bool" where
  "isDigit x = between 48 x 57"

definition isSpace :: "char \<Rightarrow> bool" where
  "isSpace x = (x = CHR 0x09 \<or> x = CHR 0x0A \<or> x = CHR 0x0C \<or> x = CHR 0x0D \<or> x = CHR '' '')"

datatype atom =
    Lit char              \<comment> \<open>a literal byte\<close>
  | Digit                 \<comment> \<open>\<open>\d\<close>\<close>
  | WordCh                \<comment> \<open>\<open>\w\<close>\<close>
  | SpaceCh               \<comment> \<open>\<open>\s\<close>\<close>
  | NonSpace              \<comment> \<open>\<open>\S\<close>\<close>
  | Dot                   \<comment> \<open>\<open>.\<close>\<close>
  | Either atom atom      \<comment> \<open>a bracket expression of two members\<close>

fun atom_ok :: "atom \<Rightarrow> char \<Rightarrow> bool" where
  "atom_ok (Lit c) x = (x = c)"
| "atom_ok Digit x = isDigit x"
| "atom_ok WordCh x = (isDigit x \<or> between 65 x 90 \<or> between 97 x 122 \<or> x = CHR ''_'')"
| "atom_ok SpaceCh x = isSpace x"
| "atom_ok NonSpace x = (\<not> isSpace x)"
| "atom_ok Dot x = (x \<noteq> CHR 0x0A)"
| "atom_ok (Either a b) x = (atom_ok a x \<or> atom_ok b x)"

datatype re =
    Eps                   \<comment> \<open>the empty pattern\<close>
  | Bot                   \<comment> \<open>\<open>^\<close>\<close>
  | Eot                   \<comment> \<open>\<open>$\<close>\<close>
  | Atom atom
  | Seq re re
  | Opt re                \<comment> \<open>\<open>r?\<close>, greedy\<close>
  | Star atom             \<comment> \<open>\<open>a*\<close>, greedy\<close>
  | Plus atom             \<comment> \<open>\<open>a+\<close>, greedy\<close>
  | Grp re                \<comment> \<open>a capturing group, numbered by its opening parenthesis\<close>

fun str :: "string \<Rightarrow> re" where
  "str [] = Eps"
| "str [c] = Atom (Lit c)"
| "str (c # cs) = Seq (Atom (Lit c)) (str cs)"

fun cat :: "re list \<Rightarrow> re" where
  "cat [] = Eps"
| "cat [r] = r"
| "cat (r # rs) = Seq r (cat rs)"

fun rep :: "nat \<Rightarrow> atom \<Rightarrow> re" where
  "rep 0 a = Eps"
| "rep (Suc 0) a = Atom a"
| "rep (Suc n) a = Seq (Atom a) (rep n a)"

primrec ngroups :: "re \<Rightarrow> nat" where
  "ngroups Eps = 0"
| "ngroups Bot = 0"
| "ngroups Eot = 0"
| "ngroups (Atom a) = 0"
| "ngroups (Seq r s) = ngroups r + ngroups s"
| "ngroups (Opt r) = ngroups r"
| "ngroups (Star a) = 0"
| "ngroups (Plus a) = 0"
| "ngroups (Grp r) = Suc (ngroups r)"

text \<open>
  The matcher is a backtracking matcher in continuation-passing style. A continuation
  receives the text still unread and the capture slots filled so far. Alternatives are
  tried in the order of Go's leftmost-first rule: a quantifier first takes as much as it
  can, and the first complete match found is the result. \<open>n\<close> is the length of the
  whole text, \<open>i\<close> the number of the next capturing group.
\<close>

type_synonym 'r cont = "string \<Rightarrow> string list \<Rightarrow> 'r option"

fun star :: "atom \<Rightarrow> 'r cont \<Rightarrow> 'r cont" where
  "star a k [] c = k [] c"
| "star a k (x # xs) c =
     (if atom_ok a x
      then (case star a k xs c of Some r \<Rightarrow> Some r | None \<Rightarrow> k (x # xs) c)
      else k (x # xs) c)"

primrec rmatch :: "re \<Rightarrow> nat \<Rightarrow> nat \<Rightarrow> 'r cont \<Rightarrow> 'r cont" where
  "rmatch Eps n i k = k"
| "rmatch Bot n i k = (\<lambda>s c. if length s = n then k s c else None)"
| "rmatch Eot n i k = (\<lambda>s c. if s = [] then k s c else None)"
| "rmatch (Atom a) n i k =
     (\<lambda>s c. case s of [] \<Rightarrow> None | x # xs \<Rightarrow> if atom_ok a x then k xs c else None)"
| "rmatch (Seq r1 r2) n i k = rmatch r1 n i (rmatch r2 n (i + ngroups r1) k)"
| "rmatch (Opt r) n i k =
     (\<lambda>s c. case rmatch r n i k s c of Some x \<Rightarrow> Some x | None \<Rightarrow> k s c)"
| "rmatch (Star a) n i k = star a k"
| "rmatch (Plus a) n i k =
     (\<lambda>s c. case s of [] \<Rightarrow> None | x # xs \<Rightarrow> if atom_ok a x then star a k xs c else None)"
| "rmatch (Grp r) n i k =
     (\<lambda>s c. rmatch r n (Suc i) (\<lambda>s' c'. k s' (c'[i := take (length s - length s') s])) s c)"

text \<open>One attempt to match at the position where \<open>s\<close> starts in the text \<open>w\<close>.\<close>

definition attempt :: "re \<Rightarrow> string \<Rightarrow> string \<Rightarrow> string list option" where
  "attempt r w s =
     rmatch r (length w) 1 (\<lambda>s' c. Some (c[0 := take (length s - length s') s]))
       s (replicate (Suc (ngroups r)) [])"

text \<open>The leftmost match: the start positions are tried from left to right.\<close>

fun search :: "re \<Rightarrow> string \<Rightarrow> string \<Rightarrow> string list option" where
  "search r w [] = attempt r w []"
| "search r w (x # xs) =
     (case attempt r w (x # xs) of Some c \<Rightarrow> Some c | None \<Rightarrow> search r w xs)"

text \<open>A pattern that starts with \<open>^\<close> can only match at the start of the text.\<close>

fun anchored :: "re \<Rightarrow> bool" where
  "anchored (Seq Bot r) = True"
| "anchored r = False"

text \<open>
  \<open>FindStringSubmatch\<close> returns the text of the leftmost match and of its groups (the
  empty string for a group that took no part), or \<open>nil\<close>, a slice of length 0.
\<close>

definition FindStringSubmatch :: "re \<Rightarrow> string \<Rightarrow> string list" where
  "FindStringSubmatch r s = (case search r s s of None \<Rightarrow> [] | Some c \<Rightarrow> c)"

definition MatchString :: "re \<Rightarrow> string \<Rightarrow> bool" where
  "MatchString r s = (search r s s \<noteq> None)"

subsection \<open>Packages strings, strconv and fmt\<close>

text \<open>
  \<open>strings.Replace(s, old, new, -1)\<close> for a non-empty \<open>old\<close>: the non-overlapping
  occurrences of \<open>old\<close> are replaced from left to right.
\<close>

fun Replace :: "string \<Rightarrow> string \<Rightarrow> string \<Rightarrow> string" where
  "Replace [] old new = []"
| "Replace (c # cs) old new =
     (if old \<noteq> [] \<and> take (length old) (c # cs) = old
      then new @ Replace (drop (length old - 1) cs) old new
      else c # Replace cs old new)"

fun decimal :: "nat \<Rightarrow> string" where
  "decimal n =
     (if n < 10 then [char_of (48 + n)] else decimal (n div 10) @ [char_of (48 + n mod 10)])"

text \<open>\<open>fmt.Sprintf("%d %s", n, s)\<close>.\<close>

definition Sprintf_d_s :: "int \<Rightarrow> string \<Rightarrow> string" where
  "Sprintf_d_s n s = (if n < 0 then ''-'' else '''') @ decimal (nat \<bar>n\<bar>) @ '' '' @ s"

definition digit_val :: "char \<Rightarrow> nat" where
  "digit_val x = of_char x - 48"

definition decimal_val :: "string \<Rightarrow> nat" where
  "decimal_val ds = foldl (\<lambda>acc x. 10 * acc + digit_val x) 0 ds"

text \<open>
  The value \<open>strconv.Atoi\<close> returns (its error is discarded by the caller): 0 on a
  syntax error, the nearest bound of \<open>int\<close> (64 bits) on a range error.
\<close>

definition Atoi :: "string \<Rightarrow> int" where
  "Atoi s =
     (let neg = (s \<noteq> [] \<and> hd s = CHR ''-'');
          ds = (if s \<noteq> [] \<and> (hd s = CHR ''-'' \<or> hd s = CHR ''+'') then tl s else s)
      in if ds = [] \<or> \<not> list_all isDigit ds then 0
         else if neg then (if 2 ^ 63 < int (decimal_val ds) then - (2 ^ 63) else - int (decimal_val ds))
         else (if 2 ^ 63 - 1 < int (decimal_val ds) then 2 ^ 63 - 1 else int (decimal_val ds)))"

section \<open>The prefix grammars (logs/parse.go, lines 17 to 68)\<close>

definition LogPrefixAmazonRds :: string where "LogPrefixAmazonRds = ''%t:%r:%u@%d:[%p]:''"
definition LogPrefixCustom1 :: string where "LogPrefixCustom1 = ''%m [%p][%v] : [%l-1] %q[app=%a] ''"
definition LogPrefixCustom2 :: string where "LogPrefixCustom2 = ''%t [%p-%l] %q%u@%d ''"
definition LogPrefixCustom3 :: string where "LogPrefixCustom3 = ''%m [%p] %q[user=%u,db=%d,app=%a] ''"
definition LogPrefixCustom4 :: string where "LogPrefixCustom4 = ''%m [%p] %q[user=%u,db=%d,app=%a,host=%h] ''"
definition LogPrefixCustom5 :: string where "LogPrefixCustom5 = ''%t [%p]: [%l-1] user=%u,db=%d - PG-%e ''"
definition LogPrefixCustom6 :: string where "LogPrefixCustom6 = ''%t [%p]: [%l-1] user=%u,db=%d,app=%a,client=%h ''"
definition LogPrefixCustom7 :: string where "LogPrefixCustom7 = ''%t [%p]: [%l-1] [trx_id=%x] user=%u,db=%d ''"
definition LogPrefixSimple :: string where "LogPrefixSimple = ''%m [%p] ''"
definition LogPrefixEmpty :: string where "LogPrefixEmpty = ''''"

definition SupportedPrefixes :: "string list" where
  "SupportedPrefixes = [LogPrefixAmazonRds, LogPrefixCustom1, LogPrefixCustom2, LogPrefixCustom3,
     LogPrefixCustom4, LogPrefixCustom5, LogPrefixCustom6, LogPrefixCustom7, LogPrefixSimple,
     LogPrefixEmpty]"

definition IsSupportedPrefix :: "string \<Rightarrow> bool" where
  "IsSupportedPrefix prefix = (prefix \<in> set SupportedPrefixes)"

definition newline :: re where "newline = Atom (Lit (CHR 0x0A))"

definition TimeRegexp :: re where
  "TimeRegexp = Grp (cat [rep 4 Digit, str ''-'', rep 2 Digit, str ''-'', rep 2 Digit, str '' '',
     rep 2 Digit, str '':'', rep 2 Digit, str '':'', rep 2 Digit, Opt (cat [str ''.'', Plus Digit]),
     str '' '', Opt (Atom (Either (Lit CHR ''-'') (Lit CHR ''+''))), Plus WordCh])"
definition HostAndPortRegexp :: re where
  "HostAndPortRegexp = Opt (Grp (cat [Plus Dot, Opt (cat [str ''('', Plus Digit, str '')''])]))"
definition PidRegexp :: re where "PidRegexp = Grp (Plus Digit)"
definition UserRegexp :: re where "UserRegexp = Grp (Star NonSpace)"
definition DbRegexp :: re where "DbRegexp = Grp (Star NonSpace)"
definition AppRegexp :: re where "AppRegexp = Grp (Star NonSpace)"
definition HostRegexp :: re where "HostRegexp = Grp (Star NonSpace)"
definition VirtualTxRegexp :: re where
  "VirtualTxRegexp = Opt (Grp (cat [Plus Digit, str ''/'', Plus Digit]))"
definition LogLineCounterRegexp :: re where "LogLineCounterRegexp = Grp (Plus Digit)"
definition SqlstateRegexp :: re where "SqlstateRegexp = Grp (rep 5 WordCh)"
definition TransactionIdRegexp :: re where "TransactionIdRegexp = Grp (Plus Digit)"

definition LevelAndContentRegexp :: re where
  "LevelAndContentRegexp =
     cat [Grp (Plus WordCh), str '':'', Plus SpaceCh, Grp (cat [Star Dot, Opt newline]), Eot]"

definition LogPrefixAmazonRdsRegxp :: re where
  "LogPrefixAmazonRdsRegxp = cat [Bot, TimeRegexp, str '':'', HostAndPortRegexp, str '':'',
     UserRegexp, str ''@'', DbRegexp, str '':['', PidRegexp, str '']:'', LevelAndContentRegexp]"
definition LogPrefixCustom1Regexp :: re where
  "LogPrefixCustom1Regexp = cat [Bot, TimeRegexp, str '' ['', PidRegexp, str '']['', VirtualTxRegexp,
     str ''] : ['', LogLineCounterRegexp, str ''-1] '',
     Opt (cat [str ''[app='', AppRegexp, str ''] '']), LevelAndContentRegexp]"
definition LogPrefixCustom2Regexp :: re where
  "LogPrefixCustom2Regexp = cat [Bot, TimeRegexp, str '' ['', PidRegexp, str ''-'',
     LogLineCounterRegexp, str ''] '', Opt (cat [UserRegexp, str ''@'', DbRegexp, str '' '']),
     LevelAndContentRegexp]"
definition LogPrefixCustom3Regexp :: re where
  "LogPrefixCustom3Regexp = cat [Bot, TimeRegexp, str '' ['', PidRegexp, str ''] '',
     Opt (cat [str ''[user='', UserRegexp, str '',db='', DbRegexp, str '',app='', AppRegexp,
               str ''] '']),
     LevelAndContentRegexp]"
definition LogPrefixCustom4Regexp :: re where
  "LogPrefixCustom4Regexp = cat [Bot, TimeRegexp, str '' ['', PidRegexp, str ''] '',
     Opt (cat [str ''[user='', UserRegexp, str '',db='', DbRegexp, str '',app='', AppRegexp,
               str '',host='', HostRegexp, str ''] '']),
     LevelAndContentRegexp]"
definition LogPrefixCustom5Regexp :: re where
  "LogPrefixCustom5Regexp = cat [Bot, TimeRegexp, str '' ['', PidRegexp, str '']: ['',
     LogLineCounterRegexp, str ''-1] user='', UserRegexp, str '',db='', DbRegexp, str '' - PG-'',
     SqlstateRegexp, str '' '', LevelAndContentRegexp]"
definition LogPrefixCustom6Regexp :: re where
  "LogPrefixCustom6Regexp = cat [Bot, TimeRegexp, str '' ['', PidRegexp, str '']: ['',
     LogLineCounterRegexp, str ''-1] user='', UserRegexp, str '',db='', DbRegexp, str '',app='',
     AppRegexp, str '',client='', HostRegexp, str '' '', LevelAndContentRegexp]"
definition LogPrefixCustom7Regexp :: re where
  "LogPrefixCustom7Regexp = cat [Bot, TimeRegexp, str '' ['', PidRegexp, str '']: ['',
     LogLineCounterRegexp, str ''-1] [trx_id='', TransactionIdRegexp, str ''] user='', UserRegexp,
     str '',db='', DbRegexp, str '' '', LevelAndContentRegexp]"
definition LogPrefixSimpleRegexp :: re where
  "LogPrefixSimpleRegexp = cat [Bot, TimeRegexp, str '' ['', PidRegexp, str ''] '',
     LevelAndContentRegexp]"
definition LogPrefixNoTimestampUserDatabaseAppRegexp :: re where
  "LogPrefixNoTimestampUserDatabaseAppRegexp = cat [Bot, str ''[user='', UserRegexp, str '',db='',
     DbRegexp, str '',app='', AppRegexp, str ''] '', LevelAndContentRegexp]"

definition SyslogSequenceAndSplitRegexp :: re where
  "SyslogSequenceAndSplitRegexp =
     Opt (Grp (cat [str ''['', Plus (Either Digit (Lit CHR ''-'')), str '']'']))"
definition RsyslogLevelAndContentRegexp :: re where
  "RsyslogLevelAndContentRegexp =
     cat [Opt (cat [Grp (Plus WordCh), str '':'', Plus SpaceCh]),
          Grp (cat [Star Dot, Opt newline]), Eot]"
definition RsyslogTimeRegexp :: re where
  "RsyslogTimeRegexp = Grp (cat [Plus WordCh, Plus SpaceCh, Plus Digit, str '' '', rep 2 Digit,
     str '':'', rep 2 Digit, str '':'', rep 2 Digit])"
definition RsyslogHostnameRegxp :: re where "RsyslogHostnameRegxp = Grp (Plus NonSpace)"
definition RsyslogProcessNameRegexp :: re where "RsyslogProcessNameRegexp = Grp (Plus WordCh)"
definition RsyslogRegexp :: re where
  "RsyslogRegexp = cat [Bot, RsyslogTimeRegexp, str '' '', RsyslogHostnameRegxp, str '' '',
     RsyslogProcessNameRegexp, str ''['', PidRegexp, str '']: '', SyslogSequenceAndSplitRegexp,
     str '' '', RsyslogLevelAndContentRegexp]"

definition HerokuPostgresDebugRegexp :: re where
  "HerokuPostgresDebugRegexp = cat [Bot,
     Opt (Grp (cat [Plus WordCh, str '' '', Plus Digit, str '' '', Plus Digit, str '':'', Plus Digit,
                    str '':'', Plus Digit, str '' '', Plus WordCh, str '' app[postgres] '',
                    Plus WordCh, str '' ''])),
     str ''['', Grp (Plus WordCh), str ''] ['', Plus Digit, str ''-'', Plus Digit, str ''] '',
     Opt (Grp (cat [str '' sql_error_code = '', SqlstateRegexp, str '' '', Grp (Plus WordCh),
                    str '':  ''])),
     Grp (Plus Dot)]"

section \<open>Log lines and the environment of the parser\<close>

text \<open>
  An instant of time (\<open>time.Time\<close>) is its distance from the Unix epoch in nanoseconds;
  \<open>t.Before(u)\<close> is \<open>t < u\<close>. The zero value is 1 January of year 1, 00:00:00 UTC.
\<close>

type_synonym Time = int

definition Time_zero :: Time where
  "Time_zero = - 62135596800 * 1000000000"

text \<open>
  Modelled from the spec: the struct \<open>state.LogLine\<close>, which is declared in package
  \<open>state\<close>, with the fields that the data model of the specification lists and that
  \<open>logs/parse.go\<close> reads or writes. The byte offsets are \<open>int64\<close> (they are assigned
  from \<open>int64\<close> expressions), the pid is \<open>int32\<close>, the level is the \<open>int32\<close> of the
  enumeration; a UUID is 128 bits. The zero value has every field zero or empty.
\<close>

record LogLine =
  UUID :: "128 word"
  ByteStart :: "64 word"
  ByteContentStart :: "64 word"
  ByteEnd :: "64 word"
  OccurredAt :: Time
  Username :: string
  Database :: string
  Application :: string
  LogLevel :: "32 word"
  BackendPid :: "32 word"
  Content :: string

definition LogLine_zero :: LogLine where
  "LogLine_zero = \<lparr>UUID = 0, ByteStart = 0, ByteContentStart = 0, ByteEnd = 0,
     OccurredAt = Time_zero, Username = [], Database = [], Application = [], LogLevel = 0,
     BackendPid = 0, Content = []\<rparr>"

text \<open>
  What the parser takes from outside \<open>logs/parse.go\<close> is a parameter of the model:
  \<^item> \<open>time_Parse layout value\<close>: \<open>time.Parse\<close>, \<open>None\<close> when it returns an error;
  \<^item> \<open>Now_Year\<close>: \<open>time.Now().Year()\<close>;
  \<^item> \<open>LogLevel_value\<close>: the table \<open>pganalyze_collector.LogLineInformation_LogLevel_value\<close>,
    a Go map from level names to \<open>int32\<close>;
  \<^item> \<open>NewV4 n\<close>: the result of the \<open>n\<close>-th call of \<open>uuid.NewV4()\<close>; the number of calls
    made so far is threaded through the scan as the state of the generator;
  \<^item> \<open>AnalyzeLogLines\<close>: the analysis that receives the scanned log lines.
\<close>

record 's Env =
  time_Parse :: "string \<Rightarrow> string \<Rightarrow> Time option"
  Now_Year :: int
  LogLevel_value :: "string \<Rightarrow> 32 word option"
  NewV4 :: "nat \<Rightarrow> 128 word"
  AnalyzeLogLines :: "LogLine list \<Rightarrow> LogLine list \<times> 's list"

text \<open>Indexing a Go map: the zero value for a missing key.\<close>

definition LogLevel_of :: "'s Env \<Rightarrow> string \<Rightarrow> 32 word" where
  "LogLevel_of env name = (case LogLevel_value env name of None \<Rightarrow> 0 | Some v \<Rightarrow> v)"

section \<open>ParseLogLineWithPrefix (logs/parse.go, lines 79 to 289)\<close>

record Parts =
  timePart :: string
  userPart :: string
  dbPart :: string
  appPart :: string
  pidPart :: string
  levelPart :: string
  contentPart :: string

definition Parts_zero :: Parts where
  "Parts_zero = \<lparr>timePart = [], userPart = [], dbPart = [], appPart = [], pidPart = [],
     levelPart = [], contentPart = []\<rparr>"

text \<open>Lines 88 to 110: the grammar chosen when no prefix is given, and the syslog flag.\<close>

definition detectPrefix :: "string \<Rightarrow> string \<times> bool" where
  "detectPrefix line =
     (if MatchString LogPrefixAmazonRdsRegxp line then (LogPrefixAmazonRds, False)
      else if MatchString LogPrefixCustom1Regexp line then (LogPrefixCustom1, False)
      else if MatchString LogPrefixCustom2Regexp line then (LogPrefixCustom2, False)
      else if MatchString LogPrefixCustom4Regexp line then (LogPrefixCustom4, False)
      else if MatchString LogPrefixCustom3Regexp line then (LogPrefixCustom3, False)
      else if MatchString LogPrefixCustom5Regexp line then (LogPrefixCustom5, False)
      else if MatchString LogPrefixCustom6Regexp line then (LogPrefixCustom6, False)
      else if MatchString LogPrefixCustom7Regexp line then (LogPrefixCustom7, False)
      else if MatchString LogPrefixSimpleRegexp line then (LogPrefixSimple, False)
      else if MatchString RsyslogRegexp line then ('''', True)
      else ('''', False))"

text \<open>
  Lines 113 to 134, the syslog branch: \<open>None\<close> is the early return, otherwise the parts.
\<close>

definition syslogParts :: "'s Env \<Rightarrow> string \<Rightarrow> Parts option" where
  "syslogParts env line =
     (let parts = FindStringSubmatch RsyslogRegexp line in
      if length parts = 0 then None
      else
        let p = Parts_zero\<lparr>timePart := Sprintf_d_s (Now_Year env) (parts ! 1),
                  pidPart := parts ! 4, levelPart := parts ! 6,
                  contentPart := Replace (parts ! 7) ''#011'' [CHR 0x09]\<rparr>;
            parts' = FindStringSubmatch LogPrefixNoTimestampUserDatabaseAppRegexp (contentPart p)
        in if length parts' = 6
           then Some (p\<lparr>userPart := parts' ! 1, dbPart := parts' ! 2, appPart := parts' ! 3,
                        levelPart := parts' ! 4, contentPart := parts' ! 5\<rparr>)
           else Some p)"

text \<open>
  Lines 136 to 251, the switch on the prefix: \<open>None\<close> is the early return of a case
  whose pattern does not match; the default case stores the line as the content.
\<close>

definition prefixParts :: "string \<Rightarrow> string \<Rightarrow> (Parts \<times> LogLine) option" where
  "prefixParts prefix line =
     (if prefix = LogPrefixAmazonRds then
        (let parts = FindStringSubmatch LogPrefixAmazonRdsRegxp line in
         if length parts = 0 then None
         else Some (Parts_zero\<lparr>timePart := parts ! 1, userPart := parts ! 3, dbPart := parts ! 4,
                pidPart := parts ! 5, levelPart := parts ! 6, contentPart := parts ! 7\<rparr>, LogLine_zero))
      else if prefix = LogPrefixCustom1 then
        (let parts = FindStringSubmatch LogPrefixCustom1Regexp line in
         if length parts = 0 then None
         else Some (Parts_zero\<lparr>timePart := parts ! 1, pidPart := parts ! 2, appPart := parts ! 5,
                levelPart := parts ! 6, contentPart := parts ! 7\<rparr>, LogLine_zero))
      else if prefix = LogPrefixCustom2 then
        (let parts = FindStringSubmatch LogPrefixCustom2Regexp line in
         if length parts = 0 then None
         else Some (Parts_zero\<lparr>timePart := parts ! 1, pidPart := parts ! 2, userPart := parts ! 4,
                dbPart := parts ! 5, levelPart := parts ! 6, contentPart := parts ! 7\<rparr>, LogLine_zero))
      else if prefix = LogPrefixCustom3 then
        (let parts = FindStringSubmatch LogPrefixCustom3Regexp line in
         if length parts = 0 then None
         else Some (Parts_zero\<lparr>timePart := parts ! 1, pidPart := parts ! 2, userPart := parts ! 3,
                dbPart := parts ! 4, appPart := parts ! 5, levelPart := parts ! 6,
                contentPart := parts ! 7\<rparr>, LogLine_zero))
      else if prefix = LogPrefixCustom4 then
        (let parts = FindStringSubmatch LogPrefixCustom4Regexp line in
         if length parts = 0 then None
         else Some (Parts_zero\<lparr>timePart := parts ! 1, pidPart := parts ! 2, userPart := parts ! 3,
                dbPart := parts ! 4, appPart := parts ! 5, levelPart := parts ! 7,
                contentPart := parts ! 8\<rparr>, LogLine_zero))
      else if prefix = LogPrefixCustom5 then
        (let parts = FindStringSubmatch LogPrefixCustom5Regexp line in
         if length parts = 0 then None
         else Some (Parts_zero\<lparr>timePart := parts ! 1, pidPart := parts ! 2, userPart := parts ! 4,
                dbPart := parts ! 5, levelPart := parts ! 7, contentPart := parts ! 8\<rparr>, LogLine_zero))
      else if prefix = LogPrefixCustom6 then
        (let parts = FindStringSubmatch LogPrefixCustom6Regexp line in
         if length parts = 0 then None
         else Some (Parts_zero\<lparr>timePart := parts ! 1, pidPart := parts ! 2, userPart := parts ! 4,
                dbPart := parts ! 5, levelPart := parts ! 8, contentPart := parts ! 9\<rparr>, LogLine_zero))
      else if prefix = LogPrefixCustom7 then
        (let parts = FindStringSubmatch LogPrefixCustom7Regexp line in
         if length parts = 0 then None
         else Some (Parts_zero\<lparr>timePart := parts ! 1, pidPart := parts ! 2, userPart := parts ! 5,
                dbPart := parts ! 6, levelPart := parts ! 7, contentPart := parts ! 8\<rparr>, LogLine_zero))
      else if prefix = LogPrefixSimple then
        (let parts = FindStringSubmatch LogPrefixSimpleRegexp line in
         if length parts = 0 then None
         else Some (Parts_zero\<lparr>timePart := parts ! 1, pidPart := parts ! 2, levelPart := parts ! 3,
                contentPart := parts ! 4\<rparr>, LogLine_zero))
      else Some (Parts_zero, LogLine_zero\<lparr>Content := line\<rparr>))"

text \<open>
  Lines 254 to 264: the time is parsed with the format, then with the alternative
  format if there is one.
\<close>

definition parseTime :: "'s Env \<Rightarrow> string \<Rightarrow> string \<Rightarrow> string \<Rightarrow> Time option" where
  "parseTime env timeFormat timeFormatAlt value =
     (case time_Parse env timeFormat value of
        Some t \<Rightarrow> Some t
      | None \<Rightarrow> if timeFormatAlt \<noteq> '''' then time_Parse env timeFormatAlt value else None)"

text \<open>Lines 254 to 288: from the parts to the log line and the result \<open>ok\<close>.\<close>

definition finishLogLine ::
  "'s Env \<Rightarrow> string \<Rightarrow> string \<Rightarrow> Parts \<Rightarrow> LogLine \<Rightarrow> LogLine \<times> bool" where
  "finishLogLine env timeFormat timeFormatAlt p logLine =
     (case parseTime env timeFormat timeFormatAlt (timePart p) of
        None \<Rightarrow> (logLine\<lparr>OccurredAt := Time_zero\<rparr>, False)
      | Some t \<Rightarrow>
          let l1 = logLine\<lparr>OccurredAt := t\<rparr>;
              l2 = (if userPart p \<noteq> ''[unknown]'' then l1\<lparr>Username := userPart p\<rparr> else l1);
              l3 = (if dbPart p \<noteq> ''[unknown]'' then l2\<lparr>Database := dbPart p\<rparr> else l2);
              l4 = (if appPart p \<noteq> ''[unknown]'' then l3\<lparr>Application := appPart p\<rparr> else l3);
              l5 = l4\<lparr>BackendPid := word_of_int (Atoi (pidPart p)), Content := contentPart p\<rparr>
          in if levelPart p = '''' then (l5, False)
             else (l5\<lparr>LogLevel := LogLevel_of env (levelPart p)\<rparr>, True))"

text \<open>Lines 112 to 289: the parse with the grammar \<open>prefix\<close>, or the syslog wrapper.\<close>

definition parseWithGrammar :: "'s Env \<Rightarrow> string \<Rightarrow> bool \<Rightarrow> string \<Rightarrow> LogLine \<times> bool" where
  "parseWithGrammar env prefix rsyslog line =
     (if rsyslog then
        (case syslogParts env line of
           None \<Rightarrow> (LogLine_zero, False)
         | Some p \<Rightarrow> finishLogLine env ''2006 Jan  2 15:04:05'' '''' p LogLine_zero)
      else
        (case prefixParts prefix line of
           None \<Rightarrow> (LogLine_zero, False)
         | Some (p, logLine) \<Rightarrow>
             finishLogLine env ''2006-01-02 15:04:05 -0700'' ''2006-01-02 15:04:05 MST'' p logLine))"

definition ParseLogLineWithPrefix :: "'s Env \<Rightarrow> string \<Rightarrow> string \<Rightarrow> LogLine \<times> bool" where
  "ParseLogLineWithPrefix env prefix line =
     (if prefix = '''' then
        (case detectPrefix line of (prefix', rsyslog) \<Rightarrow> parseWithGrammar env prefix' rsyslog line)
      else parseWithGrammar env prefix False line)"

section \<open>ParseAndAnalyzeBuffer (logs/parse.go, lines 291 to 338)\<close>

text \<open>
  \<open>reader.ReadString(delim)\<close> on a reader over a string: the bytes up to and including
  the first delimiter; at the end of the input, what is left, with the error \<open>io.EOF\<close>
  (the flag). The third component is the reader after the call. A reader over a string
  never returns another error.
\<close>

fun ReadString :: "string \<Rightarrow> char \<Rightarrow> string \<times> bool \<times> string" where
  "ReadString [] delim = ([], True, [])"
| "ReadString (c # cs) delim =
     (if c = delim then ([c], False, cs)
      else (case ReadString cs delim of (line, err, reader) \<Rightarrow> (c # line, err, reader)))"

text \<open>
  A line with its terminator, and a buffer that ends at a line boundary.
\<close>

definition isLine :: "string \<Rightarrow> bool" where
  "isLine l = (l \<noteq> [] \<and> last l = CHR 0x0A \<and> CHR 0x0A \<notin> set (butlast l))"

definition lineBoundary :: "string \<Rightarrow> bool" where
  "lineBoundary p = (p = [] \<or> last p = CHR 0x0A)"

text \<open>Lines 314 to 317: the content of a line that is no new record goes to the last log line.\<close>

definition stitch :: "LogLine list \<Rightarrow> LogLine \<Rightarrow> LogLine list" where
  "stitch logLines logLine =
     (if length logLines > 0 \<and> Content logLine \<noteq> ''''
      then logLines[length logLines - 1 :=
             (logLines ! (length logLines - 1))
               \<lparr>Content := Content (logLines ! (length logLines - 1)) @ Content logLine,
                ByteEnd := ByteEnd (logLines ! (length logLines - 1))
                             + of_nat (length (Content logLine))\<rparr>]
      else logLines)"

text \<open>Lines 326 to 331: the byte offsets and the identifier of a new log line.\<close>

definition stamp :: "LogLine \<Rightarrow> 64 word \<Rightarrow> string \<Rightarrow> 128 word \<Rightarrow> LogLine" where
  "stamp logLine byteStart line u =
     logLine\<lparr>ByteStart := byteStart,
             ByteContentStart :=
               byteStart + of_int (int (length line) - int (length (Content logLine))),
             ByteEnd := byteStart + of_nat (length line) - 1,
             UUID := u\<rparr>"

text \<open>
  The state of the loop: \<open>logLines\<close>, \<open>currentByteStart\<close> and the number of UUIDs
  generated so far.
\<close>

type_synonym scan = "LogLine list \<times> 64 word \<times> nat"

text \<open>
  One turn of the loop for a line read without an error (lines 298, 299 and 310 to 333).
  The offset that comes in is the \<open>byteStart\<close> of the line.
\<close>

definition scanStep :: "'s Env \<Rightarrow> Time \<Rightarrow> string \<Rightarrow> scan \<Rightarrow> scan" where
  "scanStep env linesNewerThan line st =
     (case st of (logLines, byteStart, gen) \<Rightarrow>
        let currentByteStart = byteStart + of_nat (length line) in
        (case ParseLogLineWithPrefix env '''' line of (logLine, ok) \<Rightarrow>
           if \<not> ok then (stitch logLines logLine, currentByteStart, gen)
           else if OccurredAt logLine < linesNewerThan then (logLines, currentByteStart, gen)
           else (logLines @ [stamp logLine byteStart line (NewV4 env gen)],
                 currentByteStart, Suc gen)))"

text \<open>
  The loop of lines 296 to 334: at the end of the input the bytes read last are counted
  (line 299) and the loop ends (line 307).
\<close>

function scanLines :: "'s Env \<Rightarrow> Time \<Rightarrow> string \<Rightarrow> scan \<Rightarrow> scan" where
  "scanLines env linesNewerThan reader st =
     (case ReadString reader (CHR 0x0A) of (line, err, reader') \<Rightarrow>
        if err then (case st of (logLines, currentByteStart, gen) \<Rightarrow>
                       (logLines, currentByteStart + of_nat (length line), gen))
        else scanLines env linesNewerThan reader' (scanStep env linesNewerThan line st))"
  by pat_completeness auto
termination
proof -
  have shorter: "(line, False, rd') = ReadString rd d \<Longrightarrow> length rd' < length rd"
    for rd d line rd'
    by (induction rd arbitrary: line) (auto split: prod.splits if_splits)
  show ?thesis
    by (relation "measure (\<lambda>(env, t, reader, st). length reader)") (auto dest: shorter)
qed

text \<open>Lines 292 to 334: the scan of a buffer, from no log lines.\<close>

definition scanBuffer :: "'s Env \<Rightarrow> string \<Rightarrow> 64 word \<Rightarrow> Time \<Rightarrow> nat \<Rightarrow> scan" where
  "scanBuffer env buffer initialByteStart linesNewerThan gen =
     scanLines env linesNewerThan buffer ([], initialByteStart, gen)"

definition ParseAndAnalyzeBuffer ::
  "'s Env \<Rightarrow> string \<Rightarrow> 64 word \<Rightarrow> Time \<Rightarrow> nat \<Rightarrow> (LogLine list \<times> 's list \<times> 64 word) \<times> nat" where
  "ParseAndAnalyzeBuffer env buffer initialByteStart linesNewerThan gen =
     (case scanBuffer env buffer initialByteStart linesNewerThan gen of
        (logLines, currentByteStart, gen') \<Rightarrow>
          (case AnalyzeLogLines env logLines of
             (newLogLines, newSamples) \<Rightarrow> ((newLogLines, newSamples, currentByteStart), gen')))"

section \<open>DebugParseAndAnalyzeBuffer (logs/parse.go, lines 340 to 395)\<close>

datatype panic = IndexOutOfRange

text \<open>
  One turn of the loop for a line read without an error (lines 347, 348 and 359 to 390).
  In the branch of lines 371 to 380 the result of \<open>ParseLogLineWithPrefix\<close> is bound to
  a new variable \<open>logLine\<close> of the inner block: the log line that lines 383 to 390 stamp
  and append is the outer one, still the zero value. Line 366 indexes \<open>logLines\<close>
  without a test of its length.
\<close>

definition debugStep :: "'s Env \<Rightarrow> string \<Rightarrow> scan \<Rightarrow> panic + scan" where
  "debugStep env line st =
     (case st of (logLines, byteStart, gen) \<Rightarrow>
        let currentByteStart = byteStart + of_nat (length line);
            contentParts = FindStringSubmatch HerokuPostgresDebugRegexp line
        in if length contentParts = 7 then
             (let logLine = LogLine_zero\<lparr>Content := contentParts ! 6\<rparr> in
              if contentParts ! 4 \<noteq> '''' \<and> contentParts ! 5 \<noteq> ''''
              then Inr (logLines @
                          [stamp (logLine\<lparr>LogLevel := LogLevel_of env (contentParts ! 5)\<rparr>)
                             byteStart line (NewV4 env gen)],
                        currentByteStart, Suc gen)
              else if length logLines = 0 then Inl IndexOutOfRange
              else Inr (logLines[length logLines - 1 :=
                          (logLines ! (length logLines - 1))
                            \<lparr>Content := Content (logLines ! (length logLines - 1)) @ Content logLine,
                             ByteEnd := ByteEnd (logLines ! (length logLines - 1))
                                          + of_nat (length (Content logLine))\<rparr>],
                        currentByteStart, gen))
           else
             (case ParseLogLineWithPrefix env '''' line of (logLine, ok) \<Rightarrow>
                if \<not> ok then Inr (stitch logLines logLine, currentByteStart, gen)
                else Inr (logLines @ [stamp LogLine_zero byteStart line (NewV4 env gen)],
                          currentByteStart, Suc gen)))"

function debugLines :: "'s Env \<Rightarrow> string \<Rightarrow> scan \<Rightarrow> panic + scan" where
  "debugLines env reader st =
     (case ReadString reader (CHR 0x0A) of (line, err, reader') \<Rightarrow>
        if err then (case st of (logLines, currentByteStart, gen) \<Rightarrow>
                       Inr (logLines, currentByteStart + of_nat (length line), gen))
        else (case debugStep env line st of
                Inl e \<Rightarrow> Inl e
              | Inr st' \<Rightarrow> debugLines env reader' st'))"
  by pat_completeness auto
termination
proof -
  have shorter: "(line, False, rd') = ReadString rd d \<Longrightarrow> length rd' < length rd"
    for rd d line rd'
    by (induction rd arbitrary: line) (auto split: prod.splits if_splits)
  show ?thesis
    by (relation "measure (\<lambda>(env, reader, st). length reader)") (auto dest: shorter)
qed

definition DebugParseAndAnalyzeBuffer ::
  "'s Env \<Rightarrow> string \<Rightarrow> nat \<Rightarrow> panic + (LogLine list \<times> 's list) \<times> nat" where
  "DebugParseAndAnalyzeBuffer env buffer gen =
     (case debugLines env buffer ([], 0, gen) of
        Inl e \<Rightarrow> Inl e
      | Inr (logLines, currentByteStart, gen') \<Rightarrow> Inr (AnalyzeLogLines env logLines, gen'))"

section \<open>An environment to run the parser in\<close>

text \<open>
  The theorems below hold for every environment. To evaluate the parser on concrete
  lines, \<open>go_time_Parse\<close> implements \<open>time.Parse\<close> for the three layouts of
  \<open>logs/parse.go\<close>, on the values it accepts: a four-digit year, two-digit month, day,
  hour, minute and second within their ranges, an optional fraction of a second of up to
  nine digits, and as the zone a sign with four digits (layout \<open>-0700\<close>) or the
  abbreviation \<open>UTC\<close> (layout \<open>MST\<close>, where Go resolves other abbreviations against
  the local zone of the machine); for the syslog layout an English month abbreviation and a
  day of one or two digits, in UTC. It rejects everything else.
\<close>

definition expect :: "string \<Rightarrow> string \<Rightarrow> string option" where
  "expect p s = (if take (length p) s = p then Some (drop (length p) s) else None)"

definition getnum :: "nat \<Rightarrow> string \<Rightarrow> (nat \<times> string) option" where
  "getnum n s =
     (if n \<le> length s \<and> list_all isDigit (take n s) then Some (decimal_val (take n s), drop n s)
      else None)"

definition cutspace :: "string \<Rightarrow> string option" where
  "cutspace s =
     (case s of [] \<Rightarrow> None
      | c # cs \<Rightarrow> if c = CHR '' '' then Some (dropWhile (\<lambda>x. x = CHR '' '') cs) else None)"

definition isLeap :: "nat \<Rightarrow> bool" where
  "isLeap y = (y mod 4 = 0 \<and> (y mod 100 \<noteq> 0 \<or> y mod 400 = 0))"

definition daysIn :: "nat \<Rightarrow> nat \<Rightarrow> nat" where
  "daysIn m y =
     (if m = 2 then (if isLeap y then 29 else 28)
      else if m = 4 \<or> m = 6 \<or> m = 9 \<or> m = 11 then 30 else 31)"

text \<open>The days from 1 January 1970 to a date of the proleptic Gregorian calendar.\<close>

definition daysFromCivil :: "nat \<Rightarrow> nat \<Rightarrow> nat \<Rightarrow> int" where
  "daysFromCivil y m d =
     (let y' = (if m \<le> 2 then int y - 1 else int y);
          era = y' div 400;
          yoe = y' - era * 400;
          mp = (if m \<le> 2 then int m + 9 else int m - 3);
          doy = (153 * mp + 2) div 5 + int d - 1;
          doe = yoe * 365 + yoe div 4 - yoe div 100 + doy
      in era * 146097 + doe - 719468)"

definition mkTime :: "nat \<Rightarrow> nat \<Rightarrow> nat \<Rightarrow> nat \<Rightarrow> nat \<Rightarrow> nat \<Rightarrow> nat \<Rightarrow> int \<Rightarrow> Time option" where
  "mkTime y m d hh mm ss nsec zoneOffset =
     (if 1 \<le> m \<and> m \<le> 12 \<and> 1 \<le> d \<and> d \<le> daysIn m y \<and> hh < 24 \<and> mm < 60 \<and> ss < 60
      then Some ((daysFromCivil y m d * 86400 + int hh * 3600 + int mm * 60 + int ss - zoneOffset)
                   * 1000000000 + int nsec)
      else None)"

definition getfraction :: "string \<Rightarrow> (nat \<times> string) option" where
  "getfraction s =
     (case s of
        c # d # ds \<Rightarrow>
          if c = CHR ''.'' \<and> isDigit d
          then (let f = takeWhile isDigit (d # ds)
                in if length f \<le> 9
                   then Some (decimal_val f * 10 ^ (9 - length f), dropWhile isDigit (d # ds))
                   else None)
          else Some (0, s)
      | _ \<Rightarrow> Some (0, s))"

definition getclock :: "string \<Rightarrow> ((nat \<times> nat \<times> nat \<times> nat) \<times> string) option" where
  "getclock s =
     Option.bind (getnum 2 s) (\<lambda>(hh, s).
     Option.bind (expect '':'' s) (\<lambda>s.
     Option.bind (getnum 2 s) (\<lambda>(mm, s).
     Option.bind (expect '':'' s) (\<lambda>s.
     Option.bind (getnum 2 s) (\<lambda>(ss, s).
     Option.bind (getfraction s) (\<lambda>(nsec, s). Some ((hh, mm, ss, nsec), s)))))))"

definition getzone :: "bool \<Rightarrow> string \<Rightarrow> int option" where
  "getzone numeric s =
     (if numeric then
        (case s of
           c # ds \<Rightarrow>
             if (c = CHR ''+'' \<or> c = CHR ''-'') \<and> length ds = 4 \<and> list_all isDigit ds
                \<and> decimal_val (take 2 ds) < 24 \<and> decimal_val (drop 2 ds) < 60
             then Some ((if c = CHR ''-'' then - 1 else 1)
                          * (int (decimal_val (take 2 ds)) * 60 + int (decimal_val (drop 2 ds))) * 60)
             else None
         | [] \<Rightarrow> None)
      else if s = ''UTC'' then Some 0 else None)"

definition parsePostgresTime :: "bool \<Rightarrow> string \<Rightarrow> Time option" where
  "parsePostgresTime numeric s =
     Option.bind (getnum 4 s) (\<lambda>(y, s).
     Option.bind (expect ''-'' s) (\<lambda>s.
     Option.bind (getnum 2 s) (\<lambda>(m, s).
     Option.bind (expect ''-'' s) (\<lambda>s.
     Option.bind (getnum 2 s) (\<lambda>(d, s).
     Option.bind (cutspace s) (\<lambda>s.
     Option.bind (getclock s) (\<lambda>((hh, mm, ss, nsec), s).
     Option.bind (cutspace s) (\<lambda>s.
     Option.bind (getzone numeric s) (\<lambda>zoneOffset.
       mkTime y m d hh mm ss nsec zoneOffset)))))))))"

definition shortMonthNames :: "string list" where
  "shortMonthNames = [''Jan'', ''Feb'', ''Mar'', ''Apr'', ''May'', ''Jun'', ''Jul'', ''Aug'', ''Sep'',
     ''Oct'', ''Nov'', ''Dec'']"

fun index_of :: "'a \<Rightarrow> 'a list \<Rightarrow> nat option" where
  "index_of x [] = None"
| "index_of x (y # ys) = (if x = y then Some 0 else map_option Suc (index_of x ys))"

definition getday :: "string \<Rightarrow> (nat \<times> string) option" where
  "getday s = (case getnum 2 s of Some r \<Rightarrow> Some r | None \<Rightarrow> getnum 1 s)"

definition parseSyslogTime :: "string \<Rightarrow> Time option" where
  "parseSyslogTime s =
     Option.bind (getnum 4 s) (\<lambda>(y, s).
     Option.bind (cutspace s) (\<lambda>s.
     Option.bind (index_of (take 3 s) shortMonthNames) (\<lambda>m.
     Option.bind (cutspace (drop 3 s)) (\<lambda>s.
     Option.bind (getday s) (\<lambda>(d, s).
     Option.bind (cutspace s) (\<lambda>s.
     Option.bind (getclock s) (\<lambda>((hh, mm, ss, nsec), s).
       if s = [] then mkTime y (Suc m) d hh mm ss nsec 0 else None)))))))"

definition go_time_Parse :: "string \<Rightarrow> string \<Rightarrow> Time option" where
  "go_time_Parse layout val =
     (if layout = ''2006-01-02 15:04:05 -0700'' then parsePostgresTime True val
      else if layout = ''2006-01-02 15:04:05 MST'' then parsePostgresTime False val
      else if layout = ''2006 Jan  2 15:04:05'' then parseSyslogTime val
      else None)"

text \<open>
  A level table with the severities of PostgreSQL, a generator that counts, and an
  analysis that returns the log lines as they are and no samples.
\<close>

definition sample_levels :: "(string \<times> 32 word) list" where
  "sample_levels = [(''UNKNOWN'', 0), (''DEBUG'', 1), (''INFO'', 2), (''NOTICE'', 3),
     (''WARNING'', 4), (''ERROR'', 5), (''LOG'', 6), (''FATAL'', 7), (''PANIC'', 8),
     (''DETAIL'', 9), (''HINT'', 10), (''CONTEXT'', 11), (''STATEMENT'', 12), (''QUERY'', 13),
     (''LOCATION'', 14)]"

definition sample_env :: "unit Env" where
  "sample_env = \<lparr>time_Parse = go_time_Parse, Now_Year = 2018,
     LogLevel_value = map_of sample_levels, NewV4 = (\<lambda>n. of_nat n + 1),
     AnalyzeLogLines = (\<lambda>logLines. (logLines, []))\<rparr>"

section \<open>Sample lines\<close>

text \<open>A line with the prefix \<open>%m [%p]\<close> and the log line it parses to.\<close>

definition sample_header :: string where
  "sample_header = ''2018-05-04 03:48:18 UTC [3184] LOG:  hello\<newline>''"

definition sample_record :: LogLine where
  "sample_record = LogLine_zero\<lparr>OccurredAt := 1525405698000000000, LogLevel := 6,
     BackendPid := 3184, Content := ''hello\<newline>''\<rparr>"

text \<open>
  A line in the envelope of \<open>HerokuPostgresDebugRegexp\<close> with neither a SQLSTATE nor a
  level.
\<close>

definition sample_heroku :: string where
  "sample_heroku = ''[postgres] [7-1] connection received\<newline>''"

text \<open>A line like \<open>sample_header\<close> whose level name is not in the table.\<close>

definition sample_unknown_level :: string where
  "sample_unknown_level = ''2018-05-04 03:48:18 UTC [3184] FOO:  hello\<newline>''"

text \<open>
  Lines that match a grammar and whose timestamp names no day of the calendar: month 13,
  and 30 February in the syslog format.
\<close>

definition sample_bad_time :: string where
  "sample_bad_time = ''2018-13-04 03:48:18 UTC [3184] LOG:  hello\<newline>''"

definition sample_bad_syslog :: string where
  "sample_bad_syslog = ''Feb 30 21:48:31 db1 postgres[9076]: [3-1] LOG:  hello\<newline>''"

text \<open>Two lines that no grammar matches.\<close>

definition sample_body1 :: string where
  "sample_body1 = ''  at character 15\<newline>''"

definition sample_body2 :: string where
  "sample_body2 = ''SELECT 1;\<newline>''"

text \<open>A syslog line whose payload has an escaped tab.\<close>

definition sample_syslog :: string where
  "sample_syslog = ''Feb  1 21:48:31 db1 postgres[9076]: [3-1] LOG:  a#011b\<newline>''"

text \<open>A line in the format of \<open>LogPrefixCustom4\<close>.\<close>

definition sample_custom4 :: string where
  "sample_custom4 =
     ''2018-05-04 03:48:18 UTC [3184] [user=u,db=d,app=a,host=h] LOG:  hello\<newline>''"

section \<open>Notions used in the statements\<close>

text \<open>
  A buffer that does not begin with a continuation: it has no complete line, or its first
  line parses as a new record that passes the time filter.
\<close>

definition startsRecord :: "'s Env \<Rightarrow> Time \<Rightarrow> string \<Rightarrow> bool" where
  "startsRecord env linesNewerThan buffer =
     (case ReadString buffer (CHR 0x0A) of
        (line, err, reader) \<Rightarrow>
          err \<or> (snd (ParseLogLineWithPrefix env '''' line)
                 \<and> \<not> OccurredAt (fst (ParseLogLineWithPrefix env '''' line)) < linesNewerThan))"

text \<open>
  To say what \<open>Replace\<close> does: \<open>join sep pieces\<close> puts \<open>sep\<close> between the pieces, and
  \<open>occurs old s\<close> holds when \<open>old\<close> is a substring of \<open>s\<close>.
\<close>

fun join :: "string \<Rightarrow> string list \<Rightarrow> string" where
  "join sep [] = []"
| "join sep [p] = p"
| "join sep (p # q # qs) = p @ sep @ join sep (q # qs)"

fun occurs :: "string \<Rightarrow> string \<Rightarrow> bool" where
  "occurs old [] = (old = [])"
| "occurs old (c # cs) = (take (length old) (c # cs) = old \<or> occurs old cs)"

text \<open>
  The order of the grammars as the specification gives it: the list is searched for the
  first pattern that matches the line from its start; the syslog wrapper comes last.
\<close>

definition grammarOrder :: "(string \<times> re) list" where
  "grammarOrder =
     [(LogPrefixAmazonRds, LogPrefixAmazonRdsRegxp), (LogPrefixCustom1, LogPrefixCustom1Regexp),
      (LogPrefixCustom2, LogPrefixCustom2Regexp), (LogPrefixCustom4, LogPrefixCustom4Regexp),
      (LogPrefixCustom3, LogPrefixCustom3Regexp), (LogPrefixCustom5, LogPrefixCustom5Regexp),
      (LogPrefixCustom6, LogPrefixCustom6Regexp), (LogPrefixCustom7, LogPrefixCustom7Regexp),
      (LogPrefixSimple, LogPrefixSimpleRegexp)]"

definition firstMatchingGrammar :: "string \<Rightarrow> string \<times> bool" where
  "firstMatchingGrammar line =
     (case find (\<lambda>(prefix, r). attempt r line line \<noteq> None) grammarOrder of
        Some (prefix, r) \<Rightarrow> (prefix, False)
      | None \<Rightarrow> if attempt RsyslogRegexp line line \<noteq> None then ('''', True) else ('''', False))"

section \<open>Notions used to compare two runs of the matcher\<close>

text \<open>
  To compare two runs of the matcher on one text. A continuation is blocked on a class of
  characters when it fails on every text that starts with one of them. Two runs of a
  pattern are in step for a class when, continued by continuations blocked on it, they
  succeed only by calling both continuations at one and the same position.
\<close>

definition blocked :: "(char \<Rightarrow> bool) \<Rightarrow> (string list) cont \<Rightarrow> bool" where
  "blocked A k = (\<forall>x xs c. A x \<longrightarrow> k (x # xs) c = None)"

definition instep :: "re \<Rightarrow> (char \<Rightarrow> bool) \<Rightarrow> bool" where
  "instep r A =
     (\<forall>n i1 i2 k1 k2 s c1 c2 r1 r2.
        blocked A k1 \<longrightarrow> blocked A k2 \<longrightarrow>
        rmatch r n i1 k1 s c1 = Some r1 \<longrightarrow> rmatch r n i2 k2 s c2 = Some r2 \<longrightarrow>
        (\<exists>s' c1' c2'. k1 s' c1' = Some r1 \<and> k2 s' c2' = Some r2))"

definition nostart :: "re \<Rightarrow> (char \<Rightarrow> bool) \<Rightarrow> bool" where
  "nostart r A = (\<forall>n i k. blocked A (rmatch r n i k))"

definition starts :: "re \<Rightarrow> (char \<Rightarrow> bool) \<Rightarrow> bool" where
  "starts r A =
     (\<forall>n i (k :: (string list) cont) s c.
        rmatch r n i k s c \<noteq> None \<longrightarrow> (\<exists>x xs. s = x # xs \<and> A x))"

fun plain :: "re \<Rightarrow> bool" where
  "plain Eps = True"
| "plain (Atom a) = True"
| "plain (Seq r1 r2) = (plain r1 \<and> plain r2)"
| "plain r = False"

fun width :: "re \<Rightarrow> nat" where
  "width (Atom a) = 1"
| "width (Seq r1 r2) = width r1 + width r2"
| "width r = 0"

section \<open>Evaluating the matcher\<close>

lemma attempt_Bot_later: "length s \<noteq> length w \<Longrightarrow> attempt (Seq Bot r) w s = None"
  by (simp add: attempt_def)

lemma search_Bot_later: "length s < length w \<Longrightarrow> search (Seq Bot r) w s = None"
  by (induction s) (simp_all add: attempt_Bot_later)

lemma search_Bot: "search (Seq Bot r) w w = attempt (Seq Bot r) w w"
  by (cases w) (simp_all add: search_Bot_later split: option.splits)

lemma search_anchored: "anchored r \<Longrightarrow> search r w w = attempt r w w"
  by (induction r rule: anchored.induct) (simp_all add: search_Bot)

lemma FindStringSubmatch_code [code]:
  "FindStringSubmatch r s =
     (case (if anchored r then attempt r s s else search r s s) of None \<Rightarrow> [] | Some c \<Rightarrow> c)"
  by (simp add: FindStringSubmatch_def search_anchored)

lemma MatchString_code [code]:
  "MatchString r s = ((if anchored r then attempt r s s else search r s s) \<noteq> None)"
  by (simp add: MatchString_def search_anchored)

text \<open>
  A match fills a slice with one entry for the whole match and one for each group, so the
  indices that \<open>logs/parse.go\<close> uses after testing the length are in range.
\<close>

lemma star_result:
  "star a k s c = Some res \<Longrightarrow> \<exists>s'. k s' c = Some res"
  by (induction s) (auto split: if_splits option.splits)

lemma rmatch_result:
  "rmatch r n i k s c = Some res \<Longrightarrow> \<exists>s' c'. k s' c' = Some res \<and> length c' = length c"
proof (induction r arbitrary: i k s c)
  case (Seq r1 r2)
  from Seq.prems have "rmatch r1 n i (rmatch r2 n (i + ngroups r1) k) s c = Some res"
    by simp
  from Seq.IH(1) [OF this] obtain s1 c1
    where "rmatch r2 n (i + ngroups r1) k s1 c1 = Some res" and l: "length c1 = length c"
    by blast
  from Seq.IH(2) [OF this(1)] l show ?case by auto
next
  case (Opt r)
  then show ?case by (auto split: option.splits)
next
  case (Star a)
  then have "star a k s c = Some res" by simp
  then obtain s' where "k s' c = Some res" by (blast dest: star_result)
  then show ?case by blast
next
  case (Plus a)
  then obtain xs where "star a k xs c = Some res"
    by (auto split: list.splits if_splits)
  then obtain s' where "k s' c = Some res" by (blast dest: star_result)
  then show ?case by blast
next
  case (Grp r)
  from Grp.prems
  have "rmatch r n (Suc i) (\<lambda>s' c'. k s' (c'[i := take (length s - length s') s])) s c = Some res"
    by simp
  from Grp.IH [OF this] obtain s' c'
    where "k s' (c'[i := take (length s - length s') s]) = Some res" and "length c' = length c"
    by blast
  then have "k s' (c'[i := take (length s - length s') s]) = Some res
             \<and> length (c'[i := take (length s - length s') s]) = length c"
    by simp
  then show ?case by blast
qed (auto split: if_splits list.splits)

lemma attempt_length: "attempt r w s = Some res \<Longrightarrow> length res = Suc (ngroups r)"
  unfolding attempt_def by (drule rmatch_result) auto

lemma search_length: "search r w s = Some res \<Longrightarrow> length res = Suc (ngroups r)"
  by (induction s) (auto split: option.splits dest: attempt_length)

lemma FindStringSubmatch_length:
  "FindStringSubmatch r s = [] \<or> length (FindStringSubmatch r s) = Suc (ngroups r)"
  by (auto simp: FindStringSubmatch_def split: option.splits dest: search_length)

lemma MatchString_FindStringSubmatch: "MatchString r s \<longleftrightarrow> FindStringSubmatch r s \<noteq> []"
  by (auto simp: MatchString_def FindStringSubmatch_def split: option.splits dest: search_length)

lemma ngroups_str: "ngroups (str s) = 0"
  by (induction s rule: str.induct) simp_all

lemma ngroups_rep: "ngroups (rep m a) = 0"
  by (induction m a rule: rep.induct) simp_all

lemma ngroups_fields:
  "ngroups TimeRegexp = 1" "ngroups HostAndPortRegexp = 1" "ngroups PidRegexp = 1"
  "ngroups UserRegexp = 1" "ngroups DbRegexp = 1" "ngroups AppRegexp = 1"
  "ngroups HostRegexp = 1" "ngroups VirtualTxRegexp = 1" "ngroups LogLineCounterRegexp = 1"
  "ngroups SqlstateRegexp = 1" "ngroups TransactionIdRegexp = 1"
  "ngroups LevelAndContentRegexp = 2"
  by (simp_all add: TimeRegexp_def HostAndPortRegexp_def PidRegexp_def UserRegexp_def DbRegexp_def
        AppRegexp_def HostRegexp_def VirtualTxRegexp_def LogLineCounterRegexp_def
        SqlstateRegexp_def TransactionIdRegexp_def LevelAndContentRegexp_def newline_def
        ngroups_str ngroups_rep)

lemma ngroups_grammars:
  "ngroups LogPrefixAmazonRdsRegxp = 7" "ngroups LogPrefixCustom1Regexp = 7"
  "ngroups LogPrefixCustom2Regexp = 7" "ngroups LogPrefixCustom3Regexp = 7"
  "ngroups LogPrefixCustom4Regexp = 8" "ngroups LogPrefixCustom5Regexp = 8"
  "ngroups LogPrefixCustom6Regexp = 9" "ngroups LogPrefixCustom7Regexp = 8"
  "ngroups LogPrefixSimpleRegexp = 4" "ngroups LogPrefixNoTimestampUserDatabaseAppRegexp = 5"
  "ngroups RsyslogRegexp = 7" "ngroups HerokuPostgresDebugRegexp = 6"
  by (simp_all add: LogPrefixAmazonRdsRegxp_def LogPrefixCustom1Regexp_def
        LogPrefixCustom2Regexp_def LogPrefixCustom3Regexp_def LogPrefixCustom4Regexp_def
        LogPrefixCustom5Regexp_def LogPrefixCustom6Regexp_def LogPrefixCustom7Regexp_def
        LogPrefixSimpleRegexp_def LogPrefixNoTimestampUserDatabaseAppRegexp_def RsyslogRegexp_def
        HerokuPostgresDebugRegexp_def SyslogSequenceAndSplitRegexp_def
        RsyslogLevelAndContentRegexp_def RsyslogTimeRegexp_def RsyslogHostnameRegxp_def
        RsyslogProcessNameRegexp_def newline_def ngroups_fields ngroups_str ngroups_rep)

section \<open>Reading lines\<close>

declare scanLines.simps [simp del] debugLines.simps [simp del]

lemma ReadString_tail: "d \<notin> set t \<Longrightarrow> ReadString t d = (t, True, [])"
  by (induction t) auto

lemma ReadString_body: "d \<notin> set body \<Longrightarrow> ReadString (body @ d # rest) d = (body @ [d], False, rest)"
  by (induction body) auto

lemma isLine_iff: "isLine l \<longleftrightarrow> (\<exists>body. l = body @ [CHR 0x0A] \<and> CHR 0x0A \<notin> set body)"
proof
  assume "isLine l"
  then have "l = butlast l @ [CHR 0x0A] \<and> CHR 0x0A \<notin> set (butlast l)"
    by (metis isLine_def append_butlast_last_id)
  then show "\<exists>body. l = body @ [CHR 0x0A] \<and> CHR 0x0A \<notin> set body" by blast
next
  assume "\<exists>body. l = body @ [CHR 0x0A] \<and> CHR 0x0A \<notin> set body"
  then show "isLine l" by (auto simp: isLine_def)
qed

lemma ReadString_line: "isLine l \<Longrightarrow> ReadString (l @ rest) (CHR 0x0A) = (l, False, rest)"
  by (auto simp: isLine_iff ReadString_body)

lemma ReadString_split:
  "ReadString rd d = (line, err, rd') \<Longrightarrow>
     rd = line @ rd' \<and> (err \<longrightarrow> rd' = [] \<and> d \<notin> set line)
       \<and> (\<not> err \<longrightarrow> (\<exists>body. line = body @ [d] \<and> d \<notin> set body))"
proof (induction rd arbitrary: line err rd')
  case Nil
  then show ?case by simp
next
  case (Cons c cs)
  show ?case
  proof (cases "c = d")
    case True
    with Cons.prems show ?thesis by auto
  next
    case False
    obtain l e r where r: "ReadString cs d = (l, e, r)" by (cases "ReadString cs d") auto
    from Cons.IH [OF r] False Cons.prems r show ?thesis
      by (auto intro: exI [of _ "c # _"])
  qed
qed

lemma ReadString_isLine: "ReadString rd (CHR 0x0A) = (line, False, rd') \<Longrightarrow> isLine line \<and> rd = line @ rd'"
  using ReadString_split [of rd "CHR 0x0A" line False rd'] by (auto simp: isLine_iff)

section \<open>The scan loop\<close>

lemma scanLines_tail:
  "CHR 0x0A \<notin> set t \<Longrightarrow> scanLines env cutoff t (logs, cur, g) = (logs, cur + of_nat (length t), g)"
  by (simp add: scanLines.simps [of _ _ t] ReadString_tail)

lemma scanLines_Nil: "scanLines env cutoff [] st = st"
  by (cases st) (simp add: scanLines.simps [of _ _ "[]"])

lemma scanLines_line:
  "isLine l \<Longrightarrow> scanLines env cutoff (l @ rest) st = scanLines env cutoff rest (scanStep env cutoff l st)"
  by (simp add: scanLines.simps [of _ _ "l @ rest"] ReadString_line)

lemma lineBoundary_rest: "lineBoundary (l @ r) \<Longrightarrow> isLine l \<Longrightarrow> lineBoundary r"
  by (cases "r = []") (auto simp: lineBoundary_def isLine_def)

lemma lineBoundary_tail: "lineBoundary p \<Longrightarrow> CHR 0x0A \<notin> set p \<Longrightarrow> p = []"
  by (cases "p = []") (auto simp: lineBoundary_def dest: last_in_set)

lemma scanLines_append:
  "lineBoundary p1 \<Longrightarrow> scanLines env cutoff (p1 @ p2) st = scanLines env cutoff p2 (scanLines env cutoff p1 st)"
proof (induction env cutoff p1 st rule: scanLines.induct)
  case (1 env cutoff reader st)
  obtain line err rd' where r: "ReadString reader (CHR 0x0A) = (line, err, rd')"
    by (cases "ReadString reader (CHR 0x0A)") auto
  show ?case
  proof (cases err)
    case True
    with r have "CHR 0x0A \<notin> set reader" using ReadString_split [OF r] by auto
    with "1.prems" have "reader = []" by (rule lineBoundary_tail)
    then show ?thesis by (simp add: scanLines_Nil)
  next
    case False
    with r have "isLine line \<and> reader = line @ rd'"
      by (auto dest: ReadString_isLine)
    then have l: "isLine line" and eq: "reader = line @ rd'" by simp_all
    from "1.prems" eq l have b: "lineBoundary rd'" by (auto dest: lineBoundary_rest)
    have "scanLines env cutoff (rd' @ p2) (scanStep env cutoff line st)
            = scanLines env cutoff p2 (scanLines env cutoff rd' (scanStep env cutoff line st))"
      using "1.IH" [of line "(err, rd')" err rd'] r False b by simp
    then show ?thesis
      using l by (simp add: eq scanLines_line)
  qed
qed

lemma scanStep_offset: "fst (snd (scanStep env cutoff l (logs, cur, g))) = cur + of_nat (length l)"
  by (simp add: scanStep_def Let_def split: prod.splits)

lemma scanLines_offset:
  "fst (snd (scanLines env cutoff rd (logs, cur, g))) = cur + of_nat (length rd)"
proof (induction env cutoff rd "(logs, cur, g)" arbitrary: logs cur g rule: scanLines.induct)
  case (1 env cutoff reader)
  obtain line err rd' where r: "ReadString reader (CHR 0x0A) = (line, err, rd')"
    by (cases "ReadString reader (CHR 0x0A)") auto
  show ?case
  proof (cases err)
    case True
    with r have "CHR 0x0A \<notin> set reader" using ReadString_split [OF r] by auto
    then show ?thesis by (simp add: scanLines_tail)
  next
    case False
    with r have "isLine line \<and> reader = line @ rd'"
      by (auto dest: ReadString_isLine)
    then have l: "isLine line" and eq: "reader = line @ rd'" by simp_all
    obtain logs' cur' g' where s: "scanStep env cutoff line (logs, cur, g) = (logs', cur', g')"
      by (cases "scanStep env cutoff line (logs, cur, g)") auto
    have c: "cur' = cur + of_nat (length line)"
      using scanStep_offset [of env cutoff line logs cur g] s by simp
    have "fst (snd (scanLines env cutoff rd' (logs', cur', g'))) = cur' + of_nat (length rd')"
      using "1.hyps" [of line "(err, rd')" err rd' logs' cur' g'] r False s by simp
    then show ?thesis
      using l by (simp add: eq scanLines_line s c)
  qed
qed

section \<open>One turn of the scan loop\<close>

lemma stitch_last:
  "stitch logLines logLine =
     (if logLines \<noteq> [] \<and> Content logLine \<noteq> []
      then butlast logLines @
             [(last logLines)\<lparr>Content := Content (last logLines) @ Content logLine,
                ByteEnd := ByteEnd (last logLines) + of_nat (length (Content logLine))\<rparr>]
      else logLines)"
  by (cases logLines rule: rev_cases) (simp_all add: stitch_def)

lemma scanStep_failed:
  "ParseLogLineWithPrefix env '''' line = (logLine, False) \<Longrightarrow>
     scanStep env cutoff line (logLines, cur, gen)
       = (stitch logLines logLine, cur + of_nat (length line), gen)"
  by (simp add: scanStep_def)

lemma scanStep_filtered:
  "ParseLogLineWithPrefix env '''' line = (logLine, True) \<Longrightarrow> OccurredAt logLine < cutoff \<Longrightarrow>
     scanStep env cutoff line (logLines, cur, gen) = (logLines, cur + of_nat (length line), gen)"
  by (simp add: scanStep_def)

lemma scanStep_emitted:
  "ParseLogLineWithPrefix env '''' line = (logLine, True) \<Longrightarrow> \<not> OccurredAt logLine < cutoff \<Longrightarrow>
     scanStep env cutoff line (logLines, cur, gen)
       = (logLines @ [stamp logLine cur line (NewV4 env gen)], cur + of_nat (length line), Suc gen)"
  by (simp add: scanStep_def)

section \<open>The time filter\<close>

text \<open>
  C6. A line that parses as a new record with \<open>occurred_at\<close> strictly before the cutoff
  changes nothing but the running offset: no log line is emitted for it, and the scan goes
  on from the log lines it had. A line that fails to parse right after it is therefore
  stitched to the last log line emitted before the filtered line, or dropped when there is
  none; it never goes to the filtered line.
\<close>

theorem filtered_line_is_no_continuation_target:
  assumes "ParseLogLineWithPrefix env '''' line = (logLine, True)"
    and "OccurredAt logLine < linesNewerThan"
  shows "scanStep env linesNewerThan line (logLines, cur, gen)
           = (logLines, cur + of_nat (length line), gen)
         \<and> (isLine line \<longrightarrow>
              scanLines env linesNewerThan (line @ rest) (logLines, cur, gen)
                = scanLines env linesNewerThan rest (logLines, cur + of_nat (length line), gen))
         \<and> (ParseLogLineWithPrefix env '''' next = (failed, False) \<longrightarrow>
              fst (scanStep env linesNewerThan next
                     (scanStep env linesNewerThan line (logLines, cur, gen)))
                = (if logLines \<noteq> [] \<and> Content failed \<noteq> []
                   then butlast logLines @
                          [(last logLines)\<lparr>Content := Content (last logLines) @ Content failed,
                             ByteEnd := ByteEnd (last logLines)
                                          + of_nat (length (Content failed))\<rparr>]
                   else logLines))"
  using assms
  by (simp add: scanStep_filtered scanStep_failed scanLines_line stitch_last)

lemma parse_sample_header:
  "ParseLogLineWithPrefix sample_env '''' sample_header = (sample_record, True)"
  by code_simp

theorem filtered_line_is_no_continuation_target_witness:
  "ParseLogLineWithPrefix sample_env '''' sample_header = (sample_record, True)
   \<and> OccurredAt sample_record < 1600000000000000000
   \<and> scanStep sample_env 1600000000000000000 sample_header ([], 0, 0) = ([], 43, 0)"
proof -
  have p: "ParseLogLineWithPrefix sample_env '''' sample_header = (sample_record, True)"
    by (rule parse_sample_header)
  have t: "OccurredAt sample_record < 1600000000000000000"
    by (simp add: sample_record_def LogLine_zero_def)
  have l: "length sample_header = 43"
    by (simp add: sample_header_def)
  show ?thesis
    using filtered_line_is_no_continuation_target [OF p t, of "[]" 0 0 "[]" "[]" LogLine_zero] p t l
    by simp
qed

section \<open>The debug scan\<close>

lemma debugLines_line:
  "isLine l \<Longrightarrow>
     debugLines env (l @ rest) st
       = (case debugStep env l st of Inl e \<Rightarrow> Inl e | Inr st' \<Rightarrow> debugLines env rest st')"
  by (simp add: debugLines.simps [of _ "l @ rest"] ReadString_line)

text \<open>
  C9. There are buffers on which \<open>DebugParseAndAnalyzeBuffer\<close> indexes the empty
  \<open>logLines\<close>: when the first line matches \<open>HerokuPostgresDebugRegexp\<close> and its SQLSTATE
  or its level is empty, the branch of lines 366 to 368 is taken with no log line emitted
  so far, and \<open>logLines[len(logLines)-1]\<close> is out of range.
\<close>

theorem debug_continuation_indexes_empty_logLines:
  assumes "isLine line"
    and "length (FindStringSubmatch HerokuPostgresDebugRegexp line) = 7"
    and "FindStringSubmatch HerokuPostgresDebugRegexp line ! 4 = ''''
         \<or> FindStringSubmatch HerokuPostgresDebugRegexp line ! 5 = ''''"
  shows "debugStep env line ([], cur, gen) = Inl IndexOutOfRange
         \<and> DebugParseAndAnalyzeBuffer env (line @ rest) gen = Inl IndexOutOfRange"
proof -
  have s: "debugStep env line ([], cur, gen) = Inl IndexOutOfRange" for cur
    using assms(2,3) by (auto simp: debugStep_def Let_def)
  then show ?thesis
    using assms(1) by (simp add: DebugParseAndAnalyzeBuffer_def debugLines_line)
qed

lemma find_sample_heroku:
  "FindStringSubmatch HerokuPostgresDebugRegexp sample_heroku
     = [''[postgres] [7-1] connection received'', '''', ''postgres'', '''', '''', '''',
        ''connection received'']"
  by code_simp

theorem debug_continuation_indexes_empty_logLines_witness:
  "isLine sample_heroku
   \<and> length (FindStringSubmatch HerokuPostgresDebugRegexp sample_heroku) = 7
   \<and> FindStringSubmatch HerokuPostgresDebugRegexp sample_heroku ! 4 = ''''
   \<and> FindStringSubmatch HerokuPostgresDebugRegexp sample_heroku ! 5 = ''''
   \<and> DebugParseAndAnalyzeBuffer sample_env (sample_heroku @ sample_header) 0 = Inl IndexOutOfRange"
proof -
  have l: "isLine sample_heroku"
    by (simp add: isLine_def sample_heroku_def)
  have n: "length (FindStringSubmatch HerokuPostgresDebugRegexp sample_heroku) = 7"
    by (simp add: find_sample_heroku)
  have e: "FindStringSubmatch HerokuPostgresDebugRegexp sample_heroku ! 4 = ''''
           \<or> FindStringSubmatch HerokuPostgresDebugRegexp sample_heroku ! 5 = ''''"
    by (simp add: find_sample_heroku)
  show ?thesis
    using debug_continuation_indexes_empty_logLines [OF l n e, of sample_env 0 0 sample_header] l
    by (simp add: find_sample_heroku)
qed

section \<open>Prefix hints\<close>

lemma detectPrefix_syslog: "detectPrefix line = (p, True) \<Longrightarrow> p = ''''"
  by (auto simp: detectPrefix_def split: if_splits)

lemma detect_sample_header: "detectPrefix sample_header = (LogPrefixCustom4, False)"
  by code_simp

text \<open>
  C8 as stated fails for the empty prefix. \<open>LogPrefixEmpty\<close> is in the catalog, but as a
  hint it starts the detection: \<open>sample_header\<close> is parsed as a new record, where the
  default case of the switch alone returns the line as content and \<open>ok = false\<close>.
\<close>

theorem empty_prefix_hint_counterexample:
  "IsSupportedPrefix LogPrefixEmpty
   \<and> ParseLogLineWithPrefix sample_env LogPrefixEmpty sample_header = (sample_record, True)
   \<and> parseWithGrammar sample_env LogPrefixEmpty False sample_header
       = (LogLine_zero\<lparr>Content := sample_header\<rparr>, False)"
proof -
  have "ParseLogLineWithPrefix sample_env LogPrefixEmpty sample_header = (sample_record, True)"
    using parse_sample_header by (simp add: LogPrefixEmpty_def)
  moreover have "parseWithGrammar sample_env LogPrefixEmpty False sample_header
                   = (LogLine_zero\<lparr>Content := sample_header\<rparr>, False)"
    by code_simp
  moreover have "IsSupportedPrefix LogPrefixEmpty"
    by (simp add: IsSupportedPrefix_def SupportedPrefixes_def)
  ultimately show ?thesis by simp
qed

text \<open>
  C8, amended. A prefix hint other than the empty string is used as it is, with no
  detection. The empty prefix \<open>LogPrefixEmpty\<close> is the value that asks for detection:
  with it the line is parsed with the grammar that \<open>detectPrefix\<close> chooses, not with the
  default case of the switch. Parsing a line with the prefix that detection chooses for it
  gives the same log line and the same \<open>ok\<close> as parsing it with no hint.
\<close>

theorem prefix_hint_used_directly:
  "(prefix \<noteq> '''' \<longrightarrow>
      ParseLogLineWithPrefix env prefix line = parseWithGrammar env prefix False line)
   \<and> ParseLogLineWithPrefix env LogPrefixEmpty line
       = parseWithGrammar env (fst (detectPrefix line)) (snd (detectPrefix line)) line
   \<and> ParseLogLineWithPrefix env (fst (detectPrefix line)) line
       = ParseLogLineWithPrefix env '''' line"
proof -
  obtain p r where d: "detectPrefix line = (p, r)" by (cases "detectPrefix line") auto
  have "ParseLogLineWithPrefix env p line = ParseLogLineWithPrefix env '''' line"
  proof (cases "p = ''''")
    case True
    then show ?thesis by simp
  next
    case False
    with d have "\<not> r" by (cases r) (auto dest: detectPrefix_syslog)
    with False d show ?thesis by (simp add: ParseLogLineWithPrefix_def)
  qed
  with d show ?thesis
    by (simp add: ParseLogLineWithPrefix_def LogPrefixEmpty_def)
qed

theorem prefix_hint_used_directly_witness:
  "LogPrefixSimple \<noteq> ''''
   \<and> ParseLogLineWithPrefix sample_env LogPrefixSimple sample_header
       = parseWithGrammar sample_env LogPrefixSimple False sample_header
   \<and> fst (detectPrefix sample_header) = LogPrefixCustom4
   \<and> ParseLogLineWithPrefix sample_env LogPrefixCustom4 sample_header = (sample_record, True)"
  using prefix_hint_used_directly [of LogPrefixSimple sample_env sample_header]
    detect_sample_header parse_sample_header
  by (simp add: LogPrefixSimple_def)

section \<open>Level and time of the emitted log lines\<close>

lemma parseTime_Some:
  "parseTime env timeFormat timeFormatAlt v = Some t \<Longrightarrow>
     \<exists>layout. time_Parse env layout v = Some t"
  by (auto simp: parseTime_def split: option.splits if_splits)

lemma finishLogLine_ok:
  assumes "finishLogLine env timeFormat timeFormatAlt p l0 = (logLine, True)"
  shows "levelPart p \<noteq> ''''
         \<and> LogLevel logLine = LogLevel_of env (levelPart p)
         \<and> parseTime env timeFormat timeFormatAlt (timePart p) = Some (OccurredAt logLine)"
  using assms
  by (auto simp: finishLogLine_def Let_def split: option.splits if_splits)

lemma parseWithGrammar_ok:
  assumes "parseWithGrammar env prefix rsyslog line = (logLine, True)"
  shows "\<exists>name. name \<noteq> '''' \<and> LogLevel logLine = LogLevel_of env name"
    and "\<exists>layout v. time_Parse env layout v = Some (OccurredAt logLine)"
proof -
  have "\<exists>timeFormat timeFormatAlt p l0.
          finishLogLine env timeFormat timeFormatAlt p l0 = (logLine, True)"
    using assms
    by (auto simp: parseWithGrammar_def split: if_splits option.splits prod.splits)
  then obtain timeFormat timeFormatAlt p l0
    where f: "finishLogLine env timeFormat timeFormatAlt p l0 = (logLine, True)"
    by blast
  from finishLogLine_ok [OF f]
  show "\<exists>name. name \<noteq> '''' \<and> LogLevel logLine = LogLevel_of env name"
    and "\<exists>layout v. time_Parse env layout v = Some (OccurredAt logLine)"
    by (blast dest: parseTime_Some)+
qed

lemma ParseLogLineWithPrefix_ok:
  assumes "ParseLogLineWithPrefix env prefix line = (logLine, True)"
  shows "(\<exists>name. name \<noteq> '''' \<and> LogLevel logLine = LogLevel_of env name)
         \<and> (\<exists>layout v. time_Parse env layout v = Some (OccurredAt logLine))"
proof -
  have "\<exists>p r. parseWithGrammar env p r line = (logLine, True)"
    using assms by (auto simp: ParseLogLineWithPrefix_def split: if_splits prod.splits)
  then show ?thesis
    using parseWithGrammar_ok by blast
qed

lemma scanLines_logs_invariant:
  "(\<And>line st. P (fst st) \<Longrightarrow> P (fst (scanStep env cutoff line st))) \<Longrightarrow> P (fst st) \<Longrightarrow>
     P (fst (scanLines env cutoff rd st))"
proof (induction env cutoff rd st rule: scanLines.induct)
  case (1 env cutoff reader st)
  obtain line err rd' where r: "ReadString reader (CHR 0x0A) = (line, err, rd')"
    by (cases "ReadString reader (CHR 0x0A)") auto
  show ?case
  proof (cases err)
    case True
    with r "1.prems"(2) show ?thesis
      by (cases st) (simp add: scanLines.simps [of _ _ reader])
  next
    case False
    have "P (fst (scanStep env cutoff line st))"
      using "1.prems" by blast
    then have "P (fst (scanLines env cutoff rd' (scanStep env cutoff line st)))"
      using "1.IH" [of line "(err, rd')" err rd'] r False "1.prems"(1) by simp
    with r False show ?thesis
      by (simp add: scanLines.simps [of _ _ reader])
  qed
qed

lemma stitch_fields:
  "set (map (\<lambda>l. (LogLevel l, OccurredAt l)) (stitch logLines logLine))
     = set (map (\<lambda>l. (LogLevel l, OccurredAt l)) logLines)"
  by (cases logLines rule: rev_cases) (auto simp: stitch_def)


lemma scanStep_fields:
  assumes "\<forall>l \<in> set logLines. Q (LogLevel l) (OccurredAt l)"
    and "\<And>logLine. ParseLogLineWithPrefix env '''' line = (logLine, True) \<Longrightarrow>
           Q (LogLevel logLine) (OccurredAt logLine)"
  shows "\<forall>l \<in> set (fst (scanStep env cutoff line (logLines, cur, gen))).
           Q (LogLevel l) (OccurredAt l)"
proof -
  obtain logLine ok where p: "ParseLogLineWithPrefix env '''' line = (logLine, ok)"
    by (cases "ParseLogLineWithPrefix env '''' line") auto
  have s: "\<forall>l \<in> set (stitch logLines logLine). Q (LogLevel l) (OccurredAt l)"
  proof
    fix l assume "l \<in> set (stitch logLines logLine)"
    then have "(LogLevel l, OccurredAt l)
                 \<in> set (map (\<lambda>l. (LogLevel l, OccurredAt l)) (stitch logLines logLine))"
      by simp
    then have "(LogLevel l, OccurredAt l) \<in> set (map (\<lambda>l. (LogLevel l, OccurredAt l)) logLines)"
      by (simp only: stitch_fields)
    with assms(1) show "Q (LogLevel l) (OccurredAt l)" by auto
  qed
  show ?thesis
  proof (cases ok)
    case False
    with p s show ?thesis by (simp add: scanStep_def)
  next
    case True
    with p assms(2) have "Q (LogLevel logLine) (OccurredAt logLine)" by simp
    with True p assms(1) show ?thesis by (auto simp: scanStep_def stamp_def Let_def)
  qed
qed

lemma isLine_sample_header: "isLine sample_header"
  by (simp add: isLine_def sample_header_def)

lemma sample_record_not_filtered: "\<not> OccurredAt sample_record < Time_zero"
  by (simp add: sample_record_def LogLine_zero_def Time_zero_def)

lemma scanBuffer_sample_header:
  "scanBuffer sample_env sample_header c Time_zero g
     = ([stamp sample_record c sample_header (NewV4 sample_env g)], c + 43, Suc g)"
proof -
  have "scanLines sample_env Time_zero (sample_header @ []) ([], c, g)
          = ([stamp sample_record c sample_header (NewV4 sample_env g)],
             c + of_nat (length sample_header), Suc g)"
    by (simp only: scanLines_line [OF isLine_sample_header] scanLines_Nil
          scanStep_emitted [OF parse_sample_header sample_record_not_filtered] append_Nil)
  then show ?thesis
    by (simp add: scanBuffer_def sample_header_def)
qed

text \<open>
  C4 as stated fails for a level name that is not in the table. The lookup in the Go map
  gives the zero value: the line of \<open>sample_unknown_level\<close> is a new record
  (\<open>ok = true\<close>), and it is emitted with \<open>log_level\<close> 0.
\<close>

theorem unknown_level_counterexample:
  "LogLevel_value sample_env ''FOO'' = None
   \<and> ParseLogLineWithPrefix sample_env '''' sample_unknown_level
       = (sample_record\<lparr>LogLevel := 0\<rparr>, True)
   \<and> fst (scanBuffer sample_env sample_unknown_level 0 Time_zero 0)
       = [stamp (sample_record\<lparr>LogLevel := 0\<rparr>) 0 sample_unknown_level 1]"
proof -
  have t: "LogLevel_value sample_env ''FOO'' = None"
    by (simp add: sample_env_def sample_levels_def)
  have p: "ParseLogLineWithPrefix sample_env '''' sample_unknown_level
             = (sample_record\<lparr>LogLevel := 0\<rparr>, True)"
    by code_simp
  have l: "isLine sample_unknown_level"
    by (simp add: isLine_def sample_unknown_level_def)
  have f: "\<not> OccurredAt (sample_record\<lparr>LogLevel := 0\<rparr>) < Time_zero"
    by (simp add: sample_record_def LogLine_zero_def Time_zero_def)
  have "scanLines sample_env Time_zero (sample_unknown_level @ []) ([], 0, 0)
          = ([stamp (sample_record\<lparr>LogLevel := 0\<rparr>) 0 sample_unknown_level
                (NewV4 sample_env 0)],
             0 + of_nat (length sample_unknown_level), Suc 0)"
    by (simp only: scanLines_line [OF l] scanLines_Nil scanStep_emitted [OF p f] append_Nil)
  then have "fst (scanBuffer sample_env sample_unknown_level 0 Time_zero 0)
               = [stamp (sample_record\<lparr>LogLevel := 0\<rparr>) 0 sample_unknown_level 1]"
    by (simp add: scanBuffer_def sample_env_def)
  with t p show ?thesis by simp
qed

text \<open>
  C4, amended. Every log line that the scan of \<open>ParseAndAnalyzeBuffer\<close> emits carries the
  level that the table gives for a non-empty level name, and an \<open>occurred_at\<close> that
  \<open>time.Parse\<close> returned without an error; so does every log line for which
  \<open>ParseLogLineWithPrefix\<close> returns \<open>ok = true\<close>. Parts with an empty level name give
  \<open>ok = false\<close>. Parts with a non-empty level name and a time that parses give
  \<open>ok = true\<close>, also when the name is not in the table: the level is then 0, the zero
  value of the lookup.
\<close>

theorem emitted_level_and_time:
  "(\<forall>l \<in> set (fst (scanBuffer env buffer initialByteStart linesNewerThan gen)).
      (\<exists>name. name \<noteq> '''' \<and> LogLevel l = LogLevel_of env name)
      \<and> (\<exists>layout v. time_Parse env layout v = Some (OccurredAt l)))
   \<and> (snd (ParseLogLineWithPrefix env prefix line) \<longrightarrow>
        (\<exists>name. name \<noteq> ''''
           \<and> LogLevel (fst (ParseLogLineWithPrefix env prefix line)) = LogLevel_of env name)
        \<and> (\<exists>layout v. time_Parse env layout v
                         = Some (OccurredAt (fst (ParseLogLineWithPrefix env prefix line)))))
   \<and> (levelPart p = '''' \<longrightarrow> \<not> snd (finishLogLine env timeFormat timeFormatAlt p l0))
   \<and> (levelPart q \<noteq> '''' \<and> parseTime env timeFormat timeFormatAlt (timePart q) \<noteq> None \<longrightarrow>
        snd (finishLogLine env timeFormat timeFormatAlt q l0)
        \<and> LogLevel (fst (finishLogLine env timeFormat timeFormatAlt q l0))
            = LogLevel_of env (levelPart q))
   \<and> (LogLevel_value env unknown = None \<longrightarrow> LogLevel_of env unknown = 0)"
proof -
  let ?Q = "\<lambda>lv t. (\<exists>name. name \<noteq> '''' \<and> lv = LogLevel_of env name)
                    \<and> (\<exists>layout v. time_Parse env layout v = Some t)"
  have ok: "?Q (LogLevel logLine) (OccurredAt logLine)"
    if "ParseLogLineWithPrefix env pr ln = (logLine, True)" for pr ln logLine
    using ParseLogLineWithPrefix_ok [OF that] .
  have "\<forall>l \<in> set (fst (scanLines env linesNewerThan buffer ([], initialByteStart, gen))).
          ?Q (LogLevel l) (OccurredAt l)"
  proof (rule scanLines_logs_invariant
           [where P = "\<lambda>logs. \<forall>l \<in> set logs. ?Q (LogLevel l) (OccurredAt l)"])
    fix line and st :: scan
    assume a: "\<forall>l \<in> set (fst st). ?Q (LogLevel l) (OccurredAt l)"
    obtain logLines cur g where st: "st = (logLines, cur, g)" by (cases st) auto
    show "\<forall>l \<in> set (fst (scanStep env linesNewerThan line st)). ?Q (LogLevel l) (OccurredAt l)"
      unfolding st
      by (rule scanStep_fields [where Q = ?Q]) (use a st ok in auto)
  qed simp
  then have A: "\<forall>l \<in> set (fst (scanBuffer env buffer initialByteStart linesNewerThan gen)).
      (\<exists>name. name \<noteq> '''' \<and> LogLevel l = LogLevel_of env name)
      \<and> (\<exists>layout v. time_Parse env layout v = Some (OccurredAt l))"
    by (simp add: scanBuffer_def)
  have B: "snd (ParseLogLineWithPrefix env prefix line) \<longrightarrow>
        (\<exists>name. name \<noteq> ''''
           \<and> LogLevel (fst (ParseLogLineWithPrefix env prefix line)) = LogLevel_of env name)
        \<and> (\<exists>layout v. time_Parse env layout v
                         = Some (OccurredAt (fst (ParseLogLineWithPrefix env prefix line))))"
    using ok [of prefix line "fst (ParseLogLineWithPrefix env prefix line)"]
    by (cases "ParseLogLineWithPrefix env prefix line") auto
  have C: "levelPart p = '''' \<longrightarrow> \<not> snd (finishLogLine env timeFormat timeFormatAlt p l0)"
    by (simp add: finishLogLine_def Let_def split: option.splits)
  have D: "levelPart q \<noteq> '''' \<and> parseTime env timeFormat timeFormatAlt (timePart q) \<noteq> None \<longrightarrow>
        snd (finishLogLine env timeFormat timeFormatAlt q l0)
        \<and> LogLevel (fst (finishLogLine env timeFormat timeFormatAlt q l0))
            = LogLevel_of env (levelPart q)"
    by (auto simp: finishLogLine_def Let_def split: option.splits)
  have E: "LogLevel_value env unknown = None \<longrightarrow> LogLevel_of env unknown = 0"
    by (simp add: LogLevel_of_def)
  from A B C D E show ?thesis by blast
qed

lemma NewV4_sample_env: "NewV4 sample_env n = of_nat n + 1"
  by (simp add: sample_env_def)

lemma parseTime_sample:
  "parseTime sample_env ''2006-01-02 15:04:05 -0700'' ''2006-01-02 15:04:05 MST''
     ''2018-05-04 03:48:18 UTC'' = Some 1525405698000000000"
  by code_simp

theorem emitted_level_and_time_witness:
  "stamp sample_record 0 sample_header 1
     \<in> set (fst (scanBuffer sample_env sample_header 0 Time_zero 0))
   \<and> (\<exists>name. name \<noteq> ''''
         \<and> LogLevel (stamp sample_record 0 sample_header 1) = LogLevel_of sample_env name)
   \<and> (\<exists>layout v. time_Parse sample_env layout v
                    = Some (OccurredAt (stamp sample_record 0 sample_header 1)))
   \<and> snd (ParseLogLineWithPrefix sample_env '''' sample_header)
   \<and> levelPart Parts_zero = ''''
   \<and> \<not> snd (finishLogLine sample_env ''2006-01-02 15:04:05 -0700'' ''2006-01-02 15:04:05 MST''
              Parts_zero LogLine_zero)
   \<and> levelPart (Parts_zero\<lparr>timePart := ''2018-05-04 03:48:18 UTC'', levelPart := ''FOO''\<rparr>) \<noteq> ''''
   \<and> snd (finishLogLine sample_env ''2006-01-02 15:04:05 -0700'' ''2006-01-02 15:04:05 MST''
            (Parts_zero\<lparr>timePart := ''2018-05-04 03:48:18 UTC'', levelPart := ''FOO''\<rparr>)
            LogLine_zero)
   \<and> LogLevel (fst (finishLogLine sample_env ''2006-01-02 15:04:05 -0700''
                       ''2006-01-02 15:04:05 MST''
                       (Parts_zero\<lparr>timePart := ''2018-05-04 03:48:18 UTC'', levelPart := ''FOO''\<rparr>)
                       LogLine_zero)) = 0
   \<and> LogLevel_value sample_env ''FOO'' = None"
proof -
  have m: "stamp sample_record 0 sample_header 1
             \<in> set (fst (scanBuffer sample_env sample_header 0 Time_zero 0))"
    by (simp add: scanBuffer_sample_header NewV4_sample_env)
  have t: "LogLevel_value sample_env ''FOO'' = None"
    by (simp add: sample_env_def sample_levels_def)
  have z: "levelPart Parts_zero = ''''"
    by (simp add: Parts_zero_def)
  have q: "timePart (Parts_zero\<lparr>timePart := ''2018-05-04 03:48:18 UTC'', levelPart := ''FOO''\<rparr>)
             = ''2018-05-04 03:48:18 UTC''"
    by simp
  show ?thesis
    using emitted_level_and_time
      [where env = sample_env and buffer = sample_header and initialByteStart = 0
         and linesNewerThan = Time_zero and gen = 0 and prefix = "''''" and line = sample_header
         and p = Parts_zero and timeFormat = "''2006-01-02 15:04:05 -0700''"
         and timeFormatAlt = "''2006-01-02 15:04:05 MST''" and ?l0.0 = LogLine_zero
         and q = "Parts_zero\<lparr>timePart := ''2018-05-04 03:48:18 UTC'', levelPart := ''FOO''\<rparr>"
         and unknown = "''FOO''"]
      m t z parse_sample_header
    by (simp only: q parseTime_sample) auto
qed

section \<open>Lines whose time does not parse\<close>

lemma detectPrefix_named:
  "detectPrefix line = (prefix, rsyslog) \<Longrightarrow> prefix \<noteq> '''' \<Longrightarrow>
     \<not> rsyslog \<and> prefix \<in> {LogPrefixAmazonRds, LogPrefixCustom1, LogPrefixCustom2,
       LogPrefixCustom3, LogPrefixCustom4, LogPrefixCustom5, LogPrefixCustom6, LogPrefixCustom7,
       LogPrefixSimple}"
  by (auto simp: detectPrefix_def split: if_splits)

lemma prefixParts_named:
  "prefixParts prefix line = Some (p, l0) \<Longrightarrow>
     prefix \<in> {LogPrefixAmazonRds, LogPrefixCustom1, LogPrefixCustom2, LogPrefixCustom3,
       LogPrefixCustom4, LogPrefixCustom5, LogPrefixCustom6, LogPrefixCustom7, LogPrefixSimple} \<Longrightarrow>
     l0 = LogLine_zero"
  by (auto simp: prefixParts_def Let_def split: if_splits)

lemma finishLogLine_no_time:
  "parseTime env timeFormat timeFormatAlt (timePart p) = None \<Longrightarrow>
     finishLogLine env timeFormat timeFormatAlt p LogLine_zero = (LogLine_zero, False)"
  by (simp add: finishLogLine_def LogLine_zero_def)

lemma stitch_empty: "Content logLine = '''' \<Longrightarrow> stitch logLines logLine = logLines"
  by (simp add: stitch_def)

text \<open>
  C7 as stated fails: the caller can tell a line whose time does not parse from a line
  that no grammar matched. \<open>sample_bad_time\<close> matches a grammar and its time fails under
  both formats; \<open>ParseLogLineWithPrefix\<close> returns an empty content for it, where for a line
  that no grammar matched the content is the line. Read after \<open>sample_header\<close>, the line
  is dropped: the log line of the header is left as it was, nothing is appended to it.
\<close>

theorem unparsable_time_counterexample:
  "detectPrefix sample_bad_time = (LogPrefixCustom4, False)
   \<and> parseTime sample_env ''2006-01-02 15:04:05 -0700'' ''2006-01-02 15:04:05 MST''
        ''2018-13-04 03:48:18 UTC'' = None
   \<and> ParseLogLineWithPrefix sample_env '''' sample_bad_time = (LogLine_zero, False)
   \<and> parseWithGrammar sample_env '''' False sample_bad_time
       = (LogLine_zero\<lparr>Content := sample_bad_time\<rparr>, False)
   \<and> fst (scanBuffer sample_env (sample_header @ sample_bad_time) 0 Time_zero 0)
       = [stamp sample_record 0 sample_header 1]"
proof -
  have d: "detectPrefix sample_bad_time = (LogPrefixCustom4, False)"
    by code_simp
  have t: "parseTime sample_env ''2006-01-02 15:04:05 -0700'' ''2006-01-02 15:04:05 MST''
             ''2018-13-04 03:48:18 UTC'' = None"
    by code_simp
  have p: "ParseLogLineWithPrefix sample_env '''' sample_bad_time = (LogLine_zero, False)"
    by code_simp
  have g: "parseWithGrammar sample_env '''' False sample_bad_time
             = (LogLine_zero\<lparr>Content := sample_bad_time\<rparr>, False)"
    by code_simp
  have l: "isLine sample_bad_time"
    by (simp add: isLine_def sample_bad_time_def)
  have c: "Content LogLine_zero = ''''"
    by (simp add: LogLine_zero_def)
  have "scanLines sample_env Time_zero (sample_header @ sample_bad_time @ []) ([], 0, 0)
          = ([stamp sample_record 0 sample_header (NewV4 sample_env 0)],
             0 + of_nat (length sample_header) + of_nat (length sample_bad_time), Suc 0)"
    by (simp only: scanLines_line [OF isLine_sample_header] scanLines_line [OF l] scanLines_Nil
          scanStep_emitted [OF parse_sample_header sample_record_not_filtered]
          scanStep_failed [OF p] stitch_empty [OF c] append_Nil)
  then have "fst (scanBuffer sample_env (sample_header @ sample_bad_time) 0 Time_zero 0)
               = [stamp sample_record 0 sample_header 1]"
    by (simp add: scanBuffer_def NewV4_sample_env)
  with d t p g show ?thesis by simp
qed

text \<open>
  C7, amended. When a grammar matched the line (a named prefix, or the syslog wrapper) and
  the extracted time fails to parse under every applicable format (the default format and
  the named-timezone format for a prefix; the one syslog format, with no fallback),
  \<open>ParseLogLineWithPrefix\<close> returns \<open>ok = false\<close> with the zero log line, whose content
  is empty. In \<open>ParseAndAnalyzeBuffer\<close> the line takes the branch of the lines that are no
  new record, but with its empty content nothing is appended to the last log line: the
  line is dropped, and only the running offset advances.
\<close>

theorem unparsable_time_line_dropped:
  assumes "detectPrefix line = (prefix, rsyslog)"
    and "(rsyslog \<and> syslogParts env line = Some p
            \<and> time_Parse env ''2006 Jan  2 15:04:05'' (timePart p) = None)
         \<or> (prefix \<noteq> '''' \<and> prefixParts prefix line = Some (p, l0)
            \<and> time_Parse env ''2006-01-02 15:04:05 -0700'' (timePart p) = None
            \<and> time_Parse env ''2006-01-02 15:04:05 MST'' (timePart p) = None)"
  shows "ParseLogLineWithPrefix env '''' line = (LogLine_zero, False)
         \<and> scanStep env linesNewerThan line (logLines, cur, gen)
             = (logLines, cur + of_nat (length line), gen)"
proof -
  have "parseWithGrammar env prefix rsyslog line = (LogLine_zero, False)"
    using assms(2)
  proof (elim disjE conjE)
    assume "rsyslog" and "syslogParts env line = Some p"
      and "time_Parse env ''2006 Jan  2 15:04:05'' (timePart p) = None"
    then show ?thesis
      by (simp add: parseWithGrammar_def finishLogLine_no_time parseTime_def)
  next
    assume n: "prefix \<noteq> ''''" and pp: "prefixParts prefix line = Some (p, l0)"
      and "time_Parse env ''2006-01-02 15:04:05 -0700'' (timePart p) = None"
      and "time_Parse env ''2006-01-02 15:04:05 MST'' (timePart p) = None"
    moreover from detectPrefix_named [OF assms(1) n] prefixParts_named [OF pp]
    have "\<not> rsyslog" and "l0 = LogLine_zero" by blast+
    ultimately show ?thesis
      by (simp add: parseWithGrammar_def finishLogLine_no_time parseTime_def)
  qed
  with assms(1) have p: "ParseLogLineWithPrefix env '''' line = (LogLine_zero, False)"
    by (simp add: ParseLogLineWithPrefix_def)
  have "Content LogLine_zero = ''''"
    by (simp add: LogLine_zero_def)
  with p show ?thesis
    by (simp add: scanStep_failed stitch_empty)
qed

lemma prefixParts_sample_bad_time:
  "prefixParts LogPrefixCustom4 sample_bad_time
     = Some (Parts_zero\<lparr>timePart := ''2018-13-04 03:48:18 UTC'', pidPart := ''3184'',
               levelPart := ''LOG'', contentPart := ''hello\<newline>''\<rparr>, LogLine_zero)"
  by code_simp

lemma syslogParts_sample_bad_syslog:
  "syslogParts sample_env sample_bad_syslog
     = Some (Parts_zero\<lparr>timePart := ''2018 Feb 30 21:48:31'', pidPart := ''9076'',
               levelPart := ''LOG'', contentPart := ''hello\<newline>''\<rparr>)"
  by code_simp

theorem unparsable_time_line_dropped_witness:
  "detectPrefix sample_bad_time = (LogPrefixCustom4, False)
   \<and> time_Parse sample_env ''2006-01-02 15:04:05 -0700'' ''2018-13-04 03:48:18 UTC'' = None
   \<and> time_Parse sample_env ''2006-01-02 15:04:05 MST'' ''2018-13-04 03:48:18 UTC'' = None
   \<and> scanStep sample_env Time_zero sample_bad_time ([sample_record], 43, 1)
       = ([sample_record], 86, 1)
   \<and> detectPrefix sample_bad_syslog = ('''', True)
   \<and> time_Parse sample_env ''2006 Jan  2 15:04:05'' ''2018 Feb 30 21:48:31'' = None
   \<and> ParseLogLineWithPrefix sample_env '''' sample_bad_syslog = (LogLine_zero, False)"
proof -
  have d1: "detectPrefix sample_bad_time = (LogPrefixCustom4, False)"
    by code_simp
  have d2: "detectPrefix sample_bad_syslog = ('''', True)"
    by code_simp
  have t1: "time_Parse sample_env ''2006-01-02 15:04:05 -0700'' ''2018-13-04 03:48:18 UTC'' = None"
    by code_simp
  have t2: "time_Parse sample_env ''2006-01-02 15:04:05 MST'' ''2018-13-04 03:48:18 UTC'' = None"
    by code_simp
  have t3: "time_Parse sample_env ''2006 Jan  2 15:04:05'' ''2018 Feb 30 21:48:31'' = None"
    by code_simp
  have h1: "(False \<and> syslogParts sample_env sample_bad_time
                = Some (Parts_zero\<lparr>timePart := ''2018-13-04 03:48:18 UTC'', pidPart := ''3184'',
                          levelPart := ''LOG'', contentPart := ''hello\<newline>''\<rparr>)
              \<and> time_Parse sample_env ''2006 Jan  2 15:04:05''
                   (timePart (Parts_zero\<lparr>timePart := ''2018-13-04 03:48:18 UTC'',
                      pidPart := ''3184'', levelPart := ''LOG'',
                      contentPart := ''hello\<newline>''\<rparr>)) = None)
            \<or> (LogPrefixCustom4 \<noteq> ''''
              \<and> prefixParts LogPrefixCustom4 sample_bad_time
                  = Some (Parts_zero\<lparr>timePart := ''2018-13-04 03:48:18 UTC'', pidPart := ''3184'',
                            levelPart := ''LOG'', contentPart := ''hello\<newline>''\<rparr>, LogLine_zero)
              \<and> time_Parse sample_env ''2006-01-02 15:04:05 -0700''
                   (timePart (Parts_zero\<lparr>timePart := ''2018-13-04 03:48:18 UTC'',
                      pidPart := ''3184'', levelPart := ''LOG'',
                      contentPart := ''hello\<newline>''\<rparr>)) = None
              \<and> time_Parse sample_env ''2006-01-02 15:04:05 MST''
                   (timePart (Parts_zero\<lparr>timePart := ''2018-13-04 03:48:18 UTC'',
                      pidPart := ''3184'', levelPart := ''LOG'',
                      contentPart := ''hello\<newline>''\<rparr>)) = None)"
    using t1 t2 prefixParts_sample_bad_time by (simp add: LogPrefixCustom4_def)
  have h2: "(True \<and> syslogParts sample_env sample_bad_syslog
                = Some (Parts_zero\<lparr>timePart := ''2018 Feb 30 21:48:31'', pidPart := ''9076'',
                          levelPart := ''LOG'', contentPart := ''hello\<newline>''\<rparr>)
              \<and> time_Parse sample_env ''2006 Jan  2 15:04:05''
                   (timePart (Parts_zero\<lparr>timePart := ''2018 Feb 30 21:48:31'', pidPart := ''9076'',
                      levelPart := ''LOG'', contentPart := ''hello\<newline>''\<rparr>)) = None)
            \<or> ('''' \<noteq> ''''
              \<and> prefixParts '''' sample_bad_syslog
                  = Some (Parts_zero\<lparr>timePart := ''2018 Feb 30 21:48:31'', pidPart := ''9076'',
                            levelPart := ''LOG'', contentPart := ''hello\<newline>''\<rparr>, LogLine_zero)
              \<and> time_Parse sample_env ''2006-01-02 15:04:05 -0700''
                   (timePart (Parts_zero\<lparr>timePart := ''2018 Feb 30 21:48:31'', pidPart := ''9076'',
                      levelPart := ''LOG'', contentPart := ''hello\<newline>''\<rparr>)) = None
              \<and> time_Parse sample_env ''2006-01-02 15:04:05 MST''
                   (timePart (Parts_zero\<lparr>timePart := ''2018 Feb 30 21:48:31'', pidPart := ''9076'',
                      levelPart := ''LOG'', contentPart := ''hello\<newline>''\<rparr>)) = None)"
    using t3 syslogParts_sample_bad_syslog by simp
  have n: "length sample_bad_time = 43"
    by (simp add: sample_bad_time_def)
  show ?thesis
    using unparsable_time_line_dropped [OF d1 h1, of Time_zero "[sample_record]" 43 1]
      unparsable_time_line_dropped [OF d2 h2, of Time_zero "[]" 0 0] d1 d2 t1 t2 t3 n
    by simp
qed

section \<open>Continuation lines\<close>

lemma prefixParts_empty:
  "prefixParts '''' line = Some (Parts_zero, LogLine_zero\<lparr>Content := line\<rparr>)"
  by (simp add: prefixParts_def LogPrefixAmazonRds_def LogPrefixCustom1_def LogPrefixCustom2_def
        LogPrefixCustom3_def LogPrefixCustom4_def LogPrefixCustom5_def LogPrefixCustom6_def
        LogPrefixCustom7_def LogPrefixSimple_def)

lemma parseWithGrammar_empty:
  assumes "time_Parse env ''2006-01-02 15:04:05 -0700'' '''' = None"
    and "time_Parse env ''2006-01-02 15:04:05 MST'' '''' = None"
  shows "parseWithGrammar env '''' False line = (LogLine_zero\<lparr>Content := line\<rparr>, False)"
  using assms
  by (simp add: parseWithGrammar_def prefixParts_empty finishLogLine_def parseTime_def
        Parts_zero_def LogLine_zero_def)

lemma unmatched_line:
  assumes "detectPrefix line = ('''', False)"
    and "time_Parse env ''2006-01-02 15:04:05 -0700'' '''' = None"
    and "time_Parse env ''2006-01-02 15:04:05 MST'' '''' = None"
  shows "ParseLogLineWithPrefix env '''' line = (LogLine_zero\<lparr>Content := line\<rparr>, False)"
  using assms(1) parseWithGrammar_empty [OF assms(2,3)]
  by (simp add: ParseLogLineWithPrefix_def)

lemma isLine_not_empty: "isLine l \<Longrightarrow> l \<noteq> []"
  by (simp add: isLine_def)

text \<open>
  C3. A line that fails to parse as a new record changes the log lines as follows. When
  there is a last log line and the content returned for the failed line is not empty, that
  content is appended to the content of the last log line and its \<open>byte_end\<close> grows by
  the length appended; all its other fields, and all earlier log lines, stay as they
  were. Otherwise the log lines stay as they were: the line is dropped. In particular a
  header line followed by two lines that match no grammar gives one log line: the header's,
  with the two lines appended to its content in order and \<open>byte_end\<close> increased by their
  lengths (\<open>time.Parse\<close> rejects the empty string that stands for the time of an
  unmatched line).
\<close>

theorem continuation_appended_to_last:
  "(ParseLogLineWithPrefix env '''' line = (failed, False) \<longrightarrow>
      scanStep env linesNewerThan line (logLines, cur, gen)
        = (if logLines \<noteq> [] \<and> Content failed \<noteq> ''''
           then butlast logLines @
                  [(last logLines)\<lparr>Content := Content (last logLines) @ Content failed,
                     ByteEnd := ByteEnd (last logLines) + of_nat (length (Content failed))\<rparr>]
           else logLines,
           cur + of_nat (length line), gen))
   \<and> (isLine header \<and> isLine body1 \<and> isLine body2
       \<and> ParseLogLineWithPrefix env '''' header = (logLine, True)
       \<and> \<not> OccurredAt logLine < linesNewerThan
       \<and> detectPrefix body1 = ('''', False) \<and> detectPrefix body2 = ('''', False)
       \<and> time_Parse env ''2006-01-02 15:04:05 -0700'' '''' = None
       \<and> time_Parse env ''2006-01-02 15:04:05 MST'' '''' = None \<longrightarrow>
      scanBuffer env (header @ body1 @ body2) initialByteStart linesNewerThan gen
        = ([(stamp logLine initialByteStart header (NewV4 env gen))
              \<lparr>Content := Content logLine @ body1 @ body2,
               ByteEnd := ByteEnd (stamp logLine initialByteStart header (NewV4 env gen))
                            + of_nat (length body1) + of_nat (length body2)\<rparr>],
           initialByteStart + of_nat (length header) + of_nat (length body1)
             + of_nat (length body2),
           Suc gen))"
proof (intro conjI impI)
  assume "ParseLogLineWithPrefix env '''' line = (failed, False)"
  then show "scanStep env linesNewerThan line (logLines, cur, gen)
        = (if logLines \<noteq> [] \<and> Content failed \<noteq> ''''
           then butlast logLines @
                  [(last logLines)\<lparr>Content := Content (last logLines) @ Content failed,
                     ByteEnd := ByteEnd (last logLines) + of_nat (length (Content failed))\<rparr>]
           else logLines,
           cur + of_nat (length line), gen)"
    by (simp add: scanStep_failed stitch_last)
next
  assume a: "isLine header \<and> isLine body1 \<and> isLine body2
       \<and> ParseLogLineWithPrefix env '''' header = (logLine, True)
       \<and> \<not> OccurredAt logLine < linesNewerThan
       \<and> detectPrefix body1 = ('''', False) \<and> detectPrefix body2 = ('''', False)
       \<and> time_Parse env ''2006-01-02 15:04:05 -0700'' '''' = None
       \<and> time_Parse env ''2006-01-02 15:04:05 MST'' '''' = None"
  then have h: "isLine header" and b1: "isLine body1" and b2: "isLine body2"
    and p: "ParseLogLineWithPrefix env '''' header = (logLine, True)"
    and f: "\<not> OccurredAt logLine < linesNewerThan"
    by simp_all
  from a have u1: "ParseLogLineWithPrefix env '''' body1 = (LogLine_zero\<lparr>Content := body1\<rparr>, False)"
    and u2: "ParseLogLineWithPrefix env '''' body2 = (LogLine_zero\<lparr>Content := body2\<rparr>, False)"
    by (simp_all add: unmatched_line)
  have n1: "body1 \<noteq> []" and n2: "body2 \<noteq> []"
    using b1 b2 by (simp_all add: isLine_not_empty)
  have "scanLines env linesNewerThan (header @ body1 @ body2 @ []) ([], initialByteStart, gen)
          = (stitch (stitch ([] @ [stamp logLine initialByteStart header (NewV4 env gen)])
                       (LogLine_zero\<lparr>Content := body1\<rparr>))
               (LogLine_zero\<lparr>Content := body2\<rparr>),
             initialByteStart + of_nat (length header) + of_nat (length body1)
               + of_nat (length body2),
             Suc gen)"
    by (simp only: scanLines_line [OF h] scanLines_line [OF b1] scanLines_line [OF b2]
          scanLines_Nil scanStep_emitted [OF p f] scanStep_failed [OF u1] scanStep_failed [OF u2])
  then show "scanBuffer env (header @ body1 @ body2) initialByteStart linesNewerThan gen
        = ([(stamp logLine initialByteStart header (NewV4 env gen))
              \<lparr>Content := Content logLine @ body1 @ body2,
               ByteEnd := ByteEnd (stamp logLine initialByteStart header (NewV4 env gen))
                            + of_nat (length body1) + of_nat (length body2)\<rparr>],
           initialByteStart + of_nat (length header) + of_nat (length body1)
             + of_nat (length body2),
           Suc gen)"
    using n1 n2 by (simp add: scanBuffer_def stitch_def stamp_def)
qed

lemma detect_sample_bodies:
  "detectPrefix sample_body1 = ('''', False)" "detectPrefix sample_body2 = ('''', False)"
  by code_simp+

lemma time_Parse_sample_empty:
  "time_Parse sample_env ''2006-01-02 15:04:05 -0700'' '''' = None"
  "time_Parse sample_env ''2006-01-02 15:04:05 MST'' '''' = None"
  by code_simp+

theorem continuation_appended_to_last_witness:
  "ParseLogLineWithPrefix sample_env '''' sample_body1
     = (LogLine_zero\<lparr>Content := sample_body1\<rparr>, False)
   \<and> scanStep sample_env Time_zero sample_body1 ([], 0, 0) = ([], 18, 0)
   \<and> isLine sample_header \<and> isLine sample_body1 \<and> isLine sample_body2
   \<and> ParseLogLineWithPrefix sample_env '''' sample_header = (sample_record, True)
   \<and> \<not> OccurredAt sample_record < Time_zero
   \<and> detectPrefix sample_body1 = ('''', False) \<and> detectPrefix sample_body2 = ('''', False)
   \<and> scanBuffer sample_env (sample_header @ sample_body1 @ sample_body2) 100 Time_zero 0
       = ([sample_record\<lparr>UUID := 1, ByteStart := 100, ByteContentStart := 137, ByteEnd := 170,
             Content := ''hello\<newline>  at character 15\<newline>SELECT 1;\<newline>''\<rparr>],
          171, 1)"
proof -
  have u: "ParseLogLineWithPrefix sample_env '''' sample_body1
             = (LogLine_zero\<lparr>Content := sample_body1\<rparr>, False)"
    by (rule unmatched_line [OF detect_sample_bodies(1) time_Parse_sample_empty])
  have l: "isLine sample_body1" "isLine sample_body2"
    by (simp_all add: isLine_def sample_body1_def sample_body2_def)
  have n: "length sample_header = 43" "length sample_body1 = 18" "length sample_body2 = 10"
    by (simp_all add: sample_header_def sample_body1_def sample_body2_def)
  have c: "Content sample_record = ''hello\<newline>''"
    by (simp add: sample_record_def)
  show ?thesis
    using continuation_appended_to_last
      [where env = sample_env and line = sample_body1 and failed = "LogLine_zero\<lparr>Content := sample_body1\<rparr>"
         and linesNewerThan = Time_zero and logLines = "[]" and cur = 0 and gen = 0
         and header = sample_header and ?body1.0 = sample_body1 and ?body2.0 = sample_body2
         and logLine = sample_record and initialByteStart = 100]
      u l isLine_sample_header parse_sample_header sample_record_not_filtered detect_sample_bodies
      time_Parse_sample_empty
    by (simp add: n c stamp_def NewV4_sample_env)
       (simp add: sample_body1_def sample_body2_def)
qed

section \<open>Scanning a buffer in two pieces\<close>

lemma stitch_frame:
  "logLines \<noteq> [] \<Longrightarrow> stitch (pre @ logLines) logLine = pre @ stitch logLines logLine"
  by (cases logLines rule: rev_cases) (simp_all add: stitch_def nth_append list_update_append)

lemma stitch_not_empty: "logLines \<noteq> [] \<Longrightarrow> stitch logLines logLine \<noteq> []"
  by (simp add: stitch_def)

lemma scanStep_frame:
  assumes "logLines \<noteq> []"
    and "scanStep env cutoff line (logLines, cur, gen) = (out, cur', gen')"
  shows "scanStep env cutoff line (pre @ logLines, cur, gen) = (pre @ out, cur', gen') \<and> out \<noteq> []"
  using assms
  by (auto simp: scanStep_def Let_def stitch_frame stitch_not_empty split: prod.splits if_splits)

lemma scanLines_frame:
  "logLines \<noteq> [] \<Longrightarrow> scanLines env cutoff rd (logLines, cur, gen) = (out, cur', gen') \<Longrightarrow>
     scanLines env cutoff rd (pre @ logLines, cur, gen) = (pre @ out, cur', gen')"
proof (induction env cutoff rd "(logLines, cur, gen)" arbitrary: logLines cur gen
         rule: scanLines.induct)
  case (1 env cutoff reader)
  obtain line err rd' where r: "ReadString reader (CHR 0x0A) = (line, err, rd')"
    by (cases "ReadString reader (CHR 0x0A)") auto
  show ?case
  proof (cases err)
    case True
    with r "1.prems" show ?thesis
      by (simp add: scanLines.simps [of _ _ reader])
  next
    case False
    obtain o1 c1 g1 where s: "scanStep env cutoff line (logLines, cur, gen) = (o1, c1, g1)"
      by (cases "scanStep env cutoff line (logLines, cur, gen)") auto
    from scanStep_frame [OF "1.prems"(1) s]
    have f: "scanStep env cutoff line (pre @ logLines, cur, gen) = (pre @ o1, c1, g1)"
      and n: "o1 \<noteq> []" by simp_all
    have "scanLines env cutoff rd' (o1, c1, g1) = (out, cur', gen')"
      using "1.prems"(2) r False s by (simp add: scanLines.simps [of _ _ reader])
    then have "scanLines env cutoff rd' (pre @ o1, c1, g1) = (pre @ out, cur', gen')"
      using "1.hyps" [of line "(err, rd')" err rd' o1 c1 g1] r False s n by simp
    with r False f show ?thesis
      by (simp add: scanLines.simps [of _ _ reader])
  qed
qed

lemma scanLines_fresh:
  assumes "startsRecord env cutoff rd"
    and "scanLines env cutoff rd ([], cur, gen) = (out, cur', gen')"
  shows "scanLines env cutoff rd (pre, cur, gen) = (pre @ out, cur', gen')"
proof -
  obtain line err rd' where r: "ReadString rd (CHR 0x0A) = (line, err, rd')"
    by (cases "ReadString rd (CHR 0x0A)") auto
  show ?thesis
  proof (cases err)
    case True
    with r assms(2) show ?thesis
      by (simp add: scanLines.simps [of _ _ rd])
  next
    case False
    with r assms(1) obtain logLine
      where p: "ParseLogLineWithPrefix env '''' line = (logLine, True)"
        and t: "\<not> OccurredAt logLine < cutoff"
      by (cases "ParseLogLineWithPrefix env '''' line") (auto simp: startsRecord_def)
    let ?rec = "stamp logLine cur line (NewV4 env gen)"
    have "scanLines env cutoff rd' ([?rec], cur + of_nat (length line), Suc gen)
            = (out, cur', gen')"
      using assms(2) r False scanStep_emitted [OF p t, of "[]" cur gen]
      by (simp add: scanLines.simps [of _ _ rd])
    then have "scanLines env cutoff rd' (pre @ [?rec], cur + of_nat (length line), Suc gen)
            = (pre @ out, cur', gen')"
      by (rule scanLines_frame [rotated]) simp
    with r False scanStep_emitted [OF p t, of pre cur gen] show ?thesis
      by (simp add: scanLines.simps [of _ _ rd])
  qed
qed

lemma ParseAndAnalyzeBuffer_lines:
  "fst (fst (ParseAndAnalyzeBuffer env buffer initialByteStart linesNewerThan gen))
     = fst (AnalyzeLogLines env (fst (scanBuffer env buffer initialByteStart linesNewerThan gen)))"
  by (simp add: ParseAndAnalyzeBuffer_def split: prod.splits)

lemma ParseAndAnalyzeBuffer_offset:
  "snd (snd (fst (ParseAndAnalyzeBuffer env buffer initialByteStart linesNewerThan gen)))
     = fst (snd (scanBuffer env buffer initialByteStart linesNewerThan gen))"
  by (simp add: ParseAndAnalyzeBuffer_def split: prod.splits)

lemma AnalyzeLogLines_sample_env: "AnalyzeLogLines sample_env logLines = (logLines, [])"
  by (simp add: sample_env_def)

lemma scanBuffer_sample_body1:
  "scanBuffer sample_env sample_body1 c Time_zero g = ([], c + 18, g)"
proof -
  have u: "ParseLogLineWithPrefix sample_env '''' sample_body1
             = (LogLine_zero\<lparr>Content := sample_body1\<rparr>, False)"
    by (rule unmatched_line [OF detect_sample_bodies(1) time_Parse_sample_empty])
  have l: "isLine sample_body1"
    by (simp add: isLine_def sample_body1_def)
  have "scanLines sample_env Time_zero (sample_body1 @ []) ([], c, g)
          = (stitch [] (LogLine_zero\<lparr>Content := sample_body1\<rparr>),
             c + of_nat (length sample_body1), g)"
    by (simp only: scanLines_line [OF l] scanLines_Nil scanStep_failed [OF u])
  then show ?thesis
    by (simp add: scanBuffer_def stitch_def sample_body1_def)
qed

lemma scanBuffer_sample_header_body1:
  "scanBuffer sample_env (sample_header @ sample_body1) c Time_zero g
     = ([(stamp sample_record c sample_header (NewV4 sample_env g))
           \<lparr>Content := ''hello\<newline>  at character 15\<newline>'', ByteEnd := c + 60\<rparr>],
        c + 61, Suc g)"
proof -
  have u: "ParseLogLineWithPrefix sample_env '''' sample_body1
             = (LogLine_zero\<lparr>Content := sample_body1\<rparr>, False)"
    by (rule unmatched_line [OF detect_sample_bodies(1) time_Parse_sample_empty])
  have l: "isLine sample_body1"
    by (simp add: isLine_def sample_body1_def)
  have "scanLines sample_env Time_zero (sample_header @ sample_body1 @ []) ([], c, g)
          = (stitch ([] @ [stamp sample_record c sample_header (NewV4 sample_env g)])
               (LogLine_zero\<lparr>Content := sample_body1\<rparr>),
             c + of_nat (length sample_header) + of_nat (length sample_body1), Suc g)"
    by (simp only: scanLines_line [OF isLine_sample_header] scanLines_line [OF l] scanLines_Nil
          scanStep_emitted [OF parse_sample_header sample_record_not_filtered]
          scanStep_failed [OF u])
  then show ?thesis
    by (simp add: scanBuffer_def stitch_def stamp_def sample_body1_def sample_header_def
          sample_record_def)
qed

text \<open>
  C1 as stated fails when the second piece begins with a continuation line. The log
  lines of a call start empty, so the second call drops \<open>sample_body1\<close>, which the call on
  the whole buffer appends to the log line of \<open>sample_header\<close>: the content and the
  \<open>byte_end\<close> of that log line differ. The analysis of \<open>sample_env\<close> returns the log
  lines as they are.
\<close>

theorem split_at_continuation_counterexample:
  "lineBoundary sample_header
   \<and> fst (ParseAndAnalyzeBuffer sample_env sample_header 0 Time_zero 0)
       = ([stamp sample_record 0 sample_header 1], [], 43)
   \<and> fst (ParseAndAnalyzeBuffer sample_env sample_body1 43 Time_zero 1) = ([], [], 61)
   \<and> fst (ParseAndAnalyzeBuffer sample_env (sample_header @ sample_body1) 0 Time_zero 0)
       = ([(stamp sample_record 0 sample_header 1)
             \<lparr>Content := ''hello\<newline>  at character 15\<newline>'', ByteEnd := 60\<rparr>], [], 61)
   \<and> ByteEnd (stamp sample_record 0 sample_header 1) = 42"
proof -
  have a: "AnalyzeLogLines sample_env logLines = (logLines, [])" for logLines
    by (simp add: sample_env_def)
  have "lineBoundary sample_header"
    by (simp add: lineBoundary_def sample_header_def)
  moreover have "ByteEnd (stamp sample_record 0 sample_header 1) = 42"
    by (simp add: stamp_def sample_header_def)
  ultimately show ?thesis
    by (simp add: ParseAndAnalyzeBuffer_def scanBuffer_sample_header scanBuffer_sample_body1
          scanBuffer_sample_header_body1 a NewV4_sample_env)
qed

text \<open>
  C1, amended. Let a buffer be split at a line boundary and the pieces be scanned by two
  successive calls of \<open>ParseAndAnalyzeBuffer\<close>, the second from the running offset (and
  the state of the UUID generator) that the first returned, both with the same cutoff.
  If the second piece does not begin with a continuation (its first line parses as a new
  record that passes the time filter, or it has no complete line), or if the first call
  emitted no log line, then the log lines scanned by the two calls, concatenated, are the
  log lines scanned by one call on the whole buffer, byte offsets included, and the final
  running offsets agree. The same holds for the log lines the calls return when the
  analysis maps a concatenation of sequences to the concatenation of its results.
\<close>

theorem split_scan_equals_whole_scan:
  assumes "lineBoundary piece1"
    and "startsRecord env linesNewerThan piece2
         \<or> fst (scanBuffer env piece1 initialByteStart linesNewerThan gen) = []"
    and "scanBuffer env piece1 initialByteStart linesNewerThan gen = (out1, offset1, gen1)"
    and "scanBuffer env piece2 offset1 linesNewerThan gen1 = (out2, offset2, gen2)"
  shows "scanBuffer env (piece1 @ piece2) initialByteStart linesNewerThan gen
           = (out1 @ out2, offset2, gen2)
         \<and> ((\<forall>a b. fst (AnalyzeLogLines env (a @ b))
                     = fst (AnalyzeLogLines env a) @ fst (AnalyzeLogLines env b)) \<longrightarrow>
              fst (fst (ParseAndAnalyzeBuffer env (piece1 @ piece2) initialByteStart
                          linesNewerThan gen))
                = fst (fst (ParseAndAnalyzeBuffer env piece1 initialByteStart linesNewerThan gen))
                  @ fst (fst (ParseAndAnalyzeBuffer env piece2 offset1 linesNewerThan gen1))
              \<and> snd (snd (fst (ParseAndAnalyzeBuffer env (piece1 @ piece2) initialByteStart
                                 linesNewerThan gen)))
                = snd (snd (fst (ParseAndAnalyzeBuffer env piece2 offset1 linesNewerThan gen1))))"
proof -
  have "scanLines env linesNewerThan piece2 (out1, offset1, gen1) = (out1 @ out2, offset2, gen2)"
    using assms(2)
  proof
    assume "startsRecord env linesNewerThan piece2"
    then show ?thesis
      using assms(4) by (simp add: scanBuffer_def scanLines_fresh)
  next
    assume "fst (scanBuffer env piece1 initialByteStart linesNewerThan gen) = []"
    with assms(3,4) show ?thesis
      by (simp add: scanBuffer_def)
  qed
  then have w: "scanBuffer env (piece1 @ piece2) initialByteStart linesNewerThan gen
                  = (out1 @ out2, offset2, gen2)"
    using assms(1,3) by (simp add: scanBuffer_def scanLines_append)
  with assms(3,4) show ?thesis
    by (simp add: ParseAndAnalyzeBuffer_lines ParseAndAnalyzeBuffer_offset)
qed

theorem split_scan_equals_whole_scan_witness:
  "lineBoundary (sample_header @ sample_body1)
   \<and> startsRecord sample_env Time_zero sample_header
   \<and> scanBuffer sample_env (sample_header @ sample_body1) 0 Time_zero 0
       = ([(stamp sample_record 0 sample_header 1)
             \<lparr>Content := ''hello\<newline>  at character 15\<newline>'', ByteEnd := 60\<rparr>], 61, 1)
   \<and> scanBuffer sample_env sample_header 61 Time_zero 1
       = ([stamp sample_record 61 sample_header 2], 104, 2)
   \<and> scanBuffer sample_env ((sample_header @ sample_body1) @ sample_header) 0 Time_zero 0
       = ([(stamp sample_record 0 sample_header 1)
             \<lparr>Content := ''hello\<newline>  at character 15\<newline>'', ByteEnd := 60\<rparr>,
           stamp sample_record 61 sample_header 2], 104, 2)
   \<and> fst (fst (ParseAndAnalyzeBuffer sample_env ((sample_header @ sample_body1) @ sample_header)
                  0 Time_zero 0))
       = [(stamp sample_record 0 sample_header 1)
            \<lparr>Content := ''hello\<newline>  at character 15\<newline>'', ByteEnd := 60\<rparr>,
          stamp sample_record 61 sample_header 2]"
proof -
  have b: "lineBoundary (sample_header @ sample_body1)"
    by (simp add: lineBoundary_def sample_body1_def)
  have r: "ReadString (sample_header @ []) (CHR 0x0A) = (sample_header, False, [])"
    by (rule ReadString_line [OF isLine_sample_header])
  have s: "startsRecord sample_env Time_zero sample_header"
    using r parse_sample_header sample_record_not_filtered by (simp add: startsRecord_def)
  have s': "startsRecord sample_env Time_zero sample_header
            \<or> fst (scanBuffer sample_env (sample_header @ sample_body1) 0 Time_zero 0) = []"
    using s by simp
  have 1: "scanBuffer sample_env (sample_header @ sample_body1) 0 Time_zero 0
             = ([(stamp sample_record 0 sample_header 1)
                   \<lparr>Content := ''hello\<newline>  at character 15\<newline>'', ByteEnd := 60\<rparr>], 61, 1)"
    by (simp add: scanBuffer_sample_header_body1 NewV4_sample_env)
  have 2: "scanBuffer sample_env sample_header 61 Time_zero 1
             = ([stamp sample_record 61 sample_header 2], 104, 2)"
    by (simp add: scanBuffer_sample_header NewV4_sample_env)
  have a: "\<forall>a b. fst (AnalyzeLogLines sample_env (a @ b))
                   = fst (AnalyzeLogLines sample_env a) @ fst (AnalyzeLogLines sample_env b)"
    by (simp add: sample_env_def)
  have p: "fst (fst (ParseAndAnalyzeBuffer sample_env (sample_header @ sample_body1) 0 Time_zero 0))
             = [(stamp sample_record 0 sample_header 1)
                  \<lparr>Content := ''hello\<newline>  at character 15\<newline>'', ByteEnd := 60\<rparr>]"
    using 1 by (simp add: ParseAndAnalyzeBuffer_lines AnalyzeLogLines_sample_env)
  have q: "fst (fst (ParseAndAnalyzeBuffer sample_env sample_header 61 Time_zero 1))
             = [stamp sample_record 61 sample_header 2]"
    using 2 by (simp add: ParseAndAnalyzeBuffer_lines AnalyzeLogLines_sample_env)
  show ?thesis
    using split_scan_equals_whole_scan [OF b s' 1 2] a b s 1 2 p q
    by simp
qed

section \<open>The running offset\<close>

lemma sint_add_nat:
  "sint (x :: 64 word) + int n < 2 ^ 63 \<Longrightarrow> sint (x + of_nat n) = sint x + int n"
proof -
  assume b: "sint x + int n < 2 ^ 63"
  have "x + of_nat n = word_of_int (sint x + int n)"
    by simp
  then have "sint (x + of_nat n) = signed_take_bit 63 (sint x + int n)"
    by (simp only: sint_sbintrunc') simp
  moreover have "- (2 ^ 63) \<le> sint x"
    using sint_ge [of x] by simp
  ultimately show ?thesis
    using b by (simp add: signed_take_bit_int_eq_self)
qed

lemma stitch_ByteStart: "map ByteStart (stitch logLines logLine) = map ByteStart logLines"
  by (cases logLines rule: rev_cases) (simp_all add: stitch_def)

lemma scanStep_ascending:
  assumes "sint cur + int (length line) < 2 ^ 63"
    and "sorted (map (\<lambda>l. sint (ByteStart l)) logLines)"
    and "\<forall>l \<in> set logLines. sint (ByteStart l) \<le> sint cur"
    and "scanStep env cutoff line (logLines, cur, gen) = (out, cur', gen')"
  shows "sorted (map (\<lambda>l. sint (ByteStart l)) out)
         \<and> (\<forall>l \<in> set out. sint (ByteStart l) \<le> sint cur')
         \<and> sint cur' = sint cur + int (length line)"
proof -
  have c: "cur' = cur + of_nat (length line)"
    using scanStep_offset [of env cutoff line logLines cur gen] assms(4) by simp
  have s: "sint cur' = sint cur + int (length line)"
    unfolding c by (rule sint_add_nat [OF assms(1)])
  have m: "map (\<lambda>l. sint (ByteStart l)) xs = map sint (map ByteStart xs)" for xs :: "LogLine list"
    by simp
  obtain logLine ok where p: "ParseLogLineWithPrefix env '''' line = (logLine, ok)"
    by (cases "ParseLogLineWithPrefix env '''' line") auto
  consider (failed) "out = stitch logLines logLine" | (same) "out = logLines"
    | (emitted) "out = logLines @ [stamp logLine cur line (NewV4 env gen)]"
    using assms(4) p by (auto simp: scanStep_def Let_def split: if_splits)
  then show ?thesis
  proof cases
    case failed
    have e: "map (\<lambda>l. sint (ByteStart l)) out = map (\<lambda>l. sint (ByteStart l)) logLines"
      unfolding failed m stitch_ByteStart ..
    have "sint (ByteStart l) \<le> sint cur" if "l \<in> set out" for l
    proof -
      from that have "sint (ByteStart l) \<in> set (map (\<lambda>l. sint (ByteStart l)) out)"
        by simp
      then have "sint (ByteStart l) \<in> set (map (\<lambda>l. sint (ByteStart l)) logLines)"
        by (simp only: e)
      with assms(3) show ?thesis by auto
    qed
    then have "\<forall>l \<in> set out. sint (ByteStart l) \<le> sint cur'"
      using s by fastforce
    with e assms(2) s show ?thesis by simp
  next
    case same
    with assms(2,3) s show ?thesis by auto
  next
    case emitted
    with assms(2,3) s show ?thesis
      by (auto simp: sorted_append stamp_def)
  qed
qed

lemma scanLines_ascending:
  "sint cur + int (length rd) < 2 ^ 63 \<Longrightarrow>
   sorted (map (\<lambda>l. sint (ByteStart l)) logLines) \<Longrightarrow>
   \<forall>l \<in> set logLines. sint (ByteStart l) \<le> sint cur \<Longrightarrow>
     sorted (map (\<lambda>l. sint (ByteStart l)) (fst (scanLines env cutoff rd (logLines, cur, gen))))"
proof (induction env cutoff rd "(logLines, cur, gen)" arbitrary: logLines cur gen
         rule: scanLines.induct)
  case (1 env cutoff reader)
  obtain line err rd' where r: "ReadString reader (CHR 0x0A) = (line, err, rd')"
    by (cases "ReadString reader (CHR 0x0A)") auto
  show ?case
  proof (cases err)
    case True
    with r "1.prems" show ?thesis
      by (simp add: scanLines.simps [of _ _ reader])
  next
    case False
    with r have eq: "reader = line @ rd'"
      by (auto dest: ReadString_isLine)
    obtain o1 c1 g1 where s: "scanStep env cutoff line (logLines, cur, gen) = (o1, c1, g1)"
      by (cases "scanStep env cutoff line (logLines, cur, gen)") auto
    have b: "sint cur + int (length line) < 2 ^ 63"
      using "1.prems"(1) eq by simp
    note st = scanStep_ascending [OF b "1.prems"(2,3) s]
    have a: "sorted (map (\<lambda>l. sint (ByteStart l)) o1)"
      by (rule st [THEN conjunct1])
    have u: "\<forall>l \<in> set o1. sint (ByteStart l) \<le> sint c1"
      by (rule st [THEN conjunct2, THEN conjunct1])
    have c: "sint c1 = sint cur + int (length line)"
      by (rule st [THEN conjunct2, THEN conjunct2])
    have "sint c1 + int (length rd') < 2 ^ 63"
      using "1.prems"(1) eq c by simp
    then have "sorted (map (\<lambda>l. sint (ByteStart l)) (fst (scanLines env cutoff rd' (o1, c1, g1))))"
      using "1.hyps" [of line "(err, rd')" err rd' o1 c1 g1] r False s a u by simp
    with r False s show ?thesis
      by (simp add: scanLines.simps [of _ _ reader])
  qed
qed

lemma scanBuffer_offset:
  "fst (snd (scanBuffer env buffer initialByteStart linesNewerThan gen))
     = initialByteStart + of_nat (length buffer)"
  by (simp add: scanBuffer_def scanLines_offset)

lemma scanBuffer_two_headers:
  "scanBuffer sample_env (sample_header @ sample_header) c Time_zero g
     = ([stamp sample_record c sample_header (NewV4 sample_env g),
         stamp sample_record (c + 43) sample_header (NewV4 sample_env (Suc g))],
        c + 86, Suc (Suc g))"
proof -
  have "scanLines sample_env Time_zero (sample_header @ sample_header @ []) ([], c, g)
          = (([] @ [stamp sample_record c sample_header (NewV4 sample_env g)])
               @ [stamp sample_record (c + of_nat (length sample_header)) sample_header
                    (NewV4 sample_env (Suc g))],
             c + of_nat (length sample_header) + of_nat (length sample_header), Suc (Suc g))"
    by (simp only: scanLines_line [OF isLine_sample_header] scanLines_Nil
          scanStep_emitted [OF parse_sample_header sample_record_not_filtered])
  then show ?thesis
    by (simp add: scanBuffer_def sample_header_def)
qed

text \<open>
  C2 as stated fails at the end of the range of \<open>int64\<close>. The running offset is an
  \<open>int64\<close> and line 299 adds to it without a check: from the initial offset
  \<open>2^63 - 10\<close> the second of two lines starts at an offset that has wrapped around to a
  negative number, below the \<open>byte_start\<close> of the first.
\<close>

theorem byte_start_overflow_counterexample:
  "map (\<lambda>l. sint (ByteStart l))
     (fst (scanBuffer sample_env (sample_header @ sample_header) 9223372036854775798 Time_zero 0))
     = [9223372036854775798, - 9223372036854775775]"
  by (simp add: scanBuffer_two_headers stamp_def)

text \<open>
  C2, amended. The running offset and the byte offsets are \<open>int64\<close> values and the
  additions are those of \<open>int64\<close>. For every buffer and initial offset: each turn of the
  loop advances the running offset by the length of the line, whatever the parse returns;
  the bytes of a last line without a newline are counted although it gives no record;
  \<open>ParseAndAnalyzeBuffer\<close> returns the initial offset plus the length of the buffer; and
  a further line that is emitted after a buffer ending at a line boundary gets as its
  \<open>byte_start\<close> the offset returned for that buffer. When the initial offset plus the
  length of the buffer does not exceed the largest \<open>int64\<close>, the \<open>byte_start\<close> values of
  the scanned log lines are non-decreasing along the sequence.
\<close>

theorem running_offset_and_byte_start:
  "snd (snd (fst (ParseAndAnalyzeBuffer env buffer initialByteStart linesNewerThan gen)))
     = initialByteStart + of_nat (length buffer)
   \<and> fst (snd (scanStep env linesNewerThan line (logLines, cur, g)))
       = cur + of_nat (length line)
   \<and> (lineBoundary buffer \<and> CHR 0x0A \<notin> set truncated \<longrightarrow>
        scanBuffer env (buffer @ truncated) initialByteStart linesNewerThan gen
          = (fst (scanBuffer env buffer initialByteStart linesNewerThan gen),
             initialByteStart + of_nat (length buffer) + of_nat (length truncated),
             snd (snd (scanBuffer env buffer initialByteStart linesNewerThan gen))))
   \<and> (lineBoundary buffer \<and> isLine next
       \<and> ParseLogLineWithPrefix env '''' next = (logLine, True)
       \<and> \<not> OccurredAt logLine < linesNewerThan \<longrightarrow>
        fst (scanBuffer env (buffer @ next) initialByteStart linesNewerThan gen)
          = fst (scanBuffer env buffer initialByteStart linesNewerThan gen)
            @ [stamp logLine
                 (snd (snd (fst (ParseAndAnalyzeBuffer env buffer initialByteStart
                                   linesNewerThan gen))))
                 next
                 (NewV4 env (snd (snd (scanBuffer env buffer initialByteStart
                                         linesNewerThan gen))))]
        \<and> ByteStart (last (fst (scanBuffer env (buffer @ next) initialByteStart
                                   linesNewerThan gen)))
            = snd (snd (fst (ParseAndAnalyzeBuffer env buffer initialByteStart
                              linesNewerThan gen))))
   \<and> (sint initialByteStart + int (length buffer) < 2 ^ 63 \<longrightarrow>
        sorted (map (\<lambda>l. sint (ByteStart l))
                  (fst (scanBuffer env buffer initialByteStart linesNewerThan gen))))"
proof -
  obtain out off g' where b: "scanBuffer env buffer initialByteStart linesNewerThan gen = (out, off, g')"
    by (cases "scanBuffer env buffer initialByteStart linesNewerThan gen") auto
  have o: "off = initialByteStart + of_nat (length buffer)"
    using scanBuffer_offset [of env buffer initialByteStart linesNewerThan gen] b by simp
  have A: "snd (snd (fst (ParseAndAnalyzeBuffer env buffer initialByteStart linesNewerThan gen)))
             = initialByteStart + of_nat (length buffer)"
    by (simp add: ParseAndAnalyzeBuffer_offset scanBuffer_offset)
  have B: "fst (snd (scanStep env linesNewerThan line (logLines, cur, g)))
             = cur + of_nat (length line)"
    by (rule scanStep_offset)
  have C: "scanBuffer env (buffer @ truncated) initialByteStart linesNewerThan gen
             = (out, off + of_nat (length truncated), g')"
    if "lineBoundary buffer" "CHR 0x0A \<notin> set truncated"
    using that b by (simp add: scanBuffer_def scanLines_append scanLines_tail)
  have D: "fst (scanBuffer env (buffer @ next) initialByteStart linesNewerThan gen)
             = out @ [stamp logLine off next (NewV4 env g')]"
    if "lineBoundary buffer" "isLine next"
      "ParseLogLineWithPrefix env '''' next = (logLine, True)"
      "\<not> OccurredAt logLine < linesNewerThan"
  proof -
    have "scanLines env linesNewerThan (next @ []) (out, off, g')
            = (out @ [stamp logLine off next (NewV4 env g')], off + of_nat (length next), Suc g')"
      by (simp only: scanLines_line [OF that(2)] scanLines_Nil scanStep_emitted [OF that(3,4)])
    then show ?thesis
      using that(1) b by (simp add: scanBuffer_def scanLines_append)
  qed
  have E: "sorted (map (\<lambda>l. sint (ByteStart l))
                     (fst (scanBuffer env buffer initialByteStart linesNewerThan gen)))"
    if "sint initialByteStart + int (length buffer) < 2 ^ 63"
    unfolding scanBuffer_def by (rule scanLines_ascending [OF that]) simp_all
  show ?thesis
    using A B C D E b o by (simp add: stamp_def)
qed

theorem running_offset_and_byte_start_witness:
  "snd (snd (fst (ParseAndAnalyzeBuffer sample_env (sample_header @ sample_header) 100
                    Time_zero 0))) = 186
   \<and> fst (snd (scanStep sample_env Time_zero sample_body1 ([], 100, 0))) = 118
   \<and> lineBoundary (sample_header @ sample_header) \<and> CHR 0x0A \<notin> set ''2018-05''
   \<and> scanBuffer sample_env ((sample_header @ sample_header) @ ''2018-05'') 100 Time_zero 0
       = ([stamp sample_record 100 sample_header 1, stamp sample_record 143 sample_header 2],
          193, 2)
   \<and> isLine sample_header
   \<and> ParseLogLineWithPrefix sample_env '''' sample_header = (sample_record, True)
   \<and> \<not> OccurredAt sample_record < Time_zero
   \<and> ByteStart (last (fst (scanBuffer sample_env ((sample_header @ sample_header) @ sample_header)
                              100 Time_zero 0))) = 186
   \<and> sint (100 :: 64 word) + int (length (sample_header @ sample_header)) < 2 ^ 63
   \<and> map (\<lambda>l. sint (ByteStart l))
        (fst (scanBuffer sample_env (sample_header @ sample_header) 100 Time_zero 0))
       = [100, 143]
   \<and> sorted [100, 143 :: int]"
proof -
  have b: "lineBoundary (sample_header @ sample_header)"
    by (simp add: lineBoundary_def sample_header_def)
  have t: "CHR 0x0A \<notin> set ''2018-05''"
    by simp
  have n: "sint (100 :: 64 word) + int (length (sample_header @ sample_header)) < 2 ^ 63"
    by (simp add: sample_header_def)
  have s: "scanBuffer sample_env (sample_header @ sample_header) 100 Time_zero 0
             = ([stamp sample_record 100 sample_header 1, stamp sample_record 143 sample_header 2],
                186, 2)"
    by (simp add: scanBuffer_two_headers NewV4_sample_env)
  have l: "length sample_header = 43" "length sample_body1 = 18"
    by (simp_all add: sample_header_def sample_body1_def)
  show ?thesis
    using running_offset_and_byte_start
      [where env = sample_env and buffer = "sample_header @ sample_header"
         and initialByteStart = 100 and linesNewerThan = Time_zero and gen = 0
         and line = sample_body1 and logLines = "[]" and cur = 100 and g = 0
         and truncated = "''2018-05''" and ?next = sample_header and logLine = sample_record]
      b t n s isLine_sample_header parse_sample_header sample_record_not_filtered
    by (simp add: l stamp_def)
qed

section \<open>The payload of a syslog line\<close>

lemma occurs_iff: "occurs old s \<longleftrightarrow> (\<exists>a b. s = a @ old @ b)"
proof (induction s)
  case Nil
  then show ?case by auto
next
  case (Cons c cs)
  show ?case
  proof
    assume "occurs old (c # cs)"
    then consider "take (length old) (c # cs) = old" | "occurs old cs" by auto
    then show "\<exists>a b. c # cs = a @ old @ b"
    proof cases
      case 1
      then have "c # cs = [] @ old @ drop (length old) (c # cs)"
        by (metis append_Nil append_take_drop_id)
      then show ?thesis by blast
    next
      case 2
      with Cons.IH obtain a b where "cs = a @ old @ b" by blast
      then have "c # cs = (c # a) @ old @ b" by simp
      then show ?thesis by blast
    qed
  next
    assume "\<exists>a b. c # cs = a @ old @ b"
    then obtain a b where e: "c # cs = a @ old @ b" by blast
    show "occurs old (c # cs)"
    proof (cases a)
      case Nil
      with e have "take (length old) (c # cs) = old" by simp
      then show ?thesis by simp
    next
      case (Cons x xs)
      with e have "cs = xs @ old @ b" by simp
      with Cons.IH show ?thesis by auto
    qed
  qed
qed

lemma join_Cons: "ps \<noteq> [] \<Longrightarrow> join sep ((c # p) # tl ps) = c # join sep (p # tl ps)"
  by (cases "tl ps") simp_all

lemma join_prefix: "\<exists>rest. join sep (p # qs) = p @ rest"
  by (cases qs) simp_all

lemma Replace_pieces:
  "old \<noteq> [] \<Longrightarrow>
     \<exists>pieces. pieces \<noteq> [] \<and> s = join old pieces \<and> Replace s old new = join new pieces
       \<and> (\<forall>p \<in> set pieces. \<not> occurs old p)"
proof (induction s old new rule: Replace.induct)
  case (1 old new)
  then have "[[]] \<noteq> [] \<and> [] = join old [[]] \<and> Replace [] old new = join new [[]]
             \<and> (\<forall>p \<in> set [[]]. \<not> occurs old p)"
    by simp
  then show ?case by blast
next
  case (2 c cs old new)
  show ?case
  proof (cases "take (length old) (c # cs) = old")
    case True
    with "2.prems" "2.IH"(1) obtain ps
      where ps: "ps \<noteq> []" "drop (length old - 1) cs = join old ps"
        "Replace (drop (length old - 1) cs) old new = join new ps"
        "\<forall>p \<in> set ps. \<not> occurs old p"
      by auto
    have "c # cs = take (length old) (c # cs) @ drop (length old) (c # cs)"
      by simp
    also have "drop (length old) (c # cs) = drop (length old - 1) cs"
      using "2.prems" by (cases old) simp_all
    finally have e: "c # cs = old @ join old ps"
      using True ps(2) by simp
    obtain q qs where q: "ps = q # qs" using ps(1) by (cases ps) auto
    have R: "Replace (c # cs) old new = new @ join new ps"
      using True "2.prems" ps(3) by simp
    have j1: "join old ([] # ps) = old @ join old ps"
      and j2: "join new ([] # ps) = new @ join new ps"
      unfolding q by simp_all
    have c1: "c # cs = join old ([] # ps)"
      by (simp only: e j1)
    have c2: "Replace (c # cs) old new = join new ([] # ps)"
      by (simp only: R j2)
    have c3: "\<forall>p \<in> set ([] # ps). \<not> occurs old p"
      using ps(4) "2.prems" by simp
    have "[] # ps \<noteq> []" by simp
    with c1 c2 c3 show ?thesis by blast
  next
    case False
    with "2.prems" "2.IH"(2) obtain ps
      where ps: "ps \<noteq> []" "cs = join old ps" "Replace cs old new = join new ps"
        "\<forall>p \<in> set ps. \<not> occurs old p"
      by auto
    obtain p qs where q: "ps = p # qs" using ps(1) by (cases ps) auto
    obtain rest where r: "cs = p @ rest"
      using join_prefix [of old p qs] ps(2) q by auto
    have n: "\<not> occurs old (c # p)"
    proof
      assume "occurs old (c # p)"
      with ps(4) q have t: "take (length old) (c # p) = old" by simp
      then have "length (take (length old) (c # p)) = length old"
        by simp
      then have "length old \<le> length (c # p)"
        by (simp only: length_take)
      moreover have "take (length old) ((c # p) @ rest)
                       = take (length old) (c # p) @ take (length old - length (c # p)) rest"
        by (rule take_append)
      ultimately have "take (length old) ((c # p) @ rest) = take (length old) (c # p)"
        by simp
      then have "take (length old) (c # cs) = take (length old) (c # p)"
        unfolding r by simp
      with t False show False by simp
    qed
    have "join old ((c # p) # qs) = c # join old (p # qs)"
      and "join new ((c # p) # qs) = c # join new (p # qs)"
      using join_Cons [of "p # qs"] by simp_all
    then have "(c # p) # qs \<noteq> [] \<and> c # cs = join old ((c # p) # qs)
          \<and> Replace (c # cs) old new = join new ((c # p) # qs)
          \<and> (\<forall>p \<in> set ((c # p) # qs). \<not> occurs old p)"
      using ps n False unfolding q by simp
    then show ?thesis by blast
  qed
qed

lemma finishLogLine_fields:
  assumes "finishLogLine env timeFormat timeFormatAlt p LogLine_zero = (logLine, True)"
  shows "Content logLine = contentPart p"
    and "Username logLine = (if userPart p = ''[unknown]'' then '''' else userPart p)"
    and "Database logLine = (if dbPart p = ''[unknown]'' then '''' else dbPart p)"
    and "Application logLine = (if appPart p = ''[unknown]'' then '''' else appPart p)"
  using assms
  by (auto simp: finishLogLine_def Let_def LogLine_zero_def split: option.splits if_splits)

text \<open>
  C10. For a line that is detected as a syslog line and parsed (\<open>ok = true\<close>), the payload
  captured by \<open>RsyslogRegexp\<close> is cut at every occurrence of \<open>#011\<close>, and the pieces, none
  of which contains \<open>#011\<close>, are joined again with a tab. The pattern for the bracketed
  user, database and application is matched against this text, after the replacement: when
  it matches, the content and the three fields are taken from its groups, otherwise the
  content is the text with the tabs. So the content stored need not be the payload of the
  line byte for byte.
\<close>

theorem syslog_payload_tabs_replaced:
  assumes "detectPrefix line = ('''', True)"
    and "ParseLogLineWithPrefix env '''' line = (logLine, True)"
  shows "\<exists>pieces. pieces \<noteq> []
           \<and> FindStringSubmatch RsyslogRegexp line ! 7 = join ''#011'' pieces
           \<and> (\<forall>p \<in> set pieces. \<not> occurs ''#011'' p)
           \<and> (let payload = join [CHR 0x09] pieces;
                   parts = FindStringSubmatch LogPrefixNoTimestampUserDatabaseAppRegexp payload
               in if length parts = 6
                  then Content logLine = parts ! 5
                       \<and> Username logLine = (if parts ! 1 = ''[unknown]'' then '''' else parts ! 1)
                       \<and> Database logLine = (if parts ! 2 = ''[unknown]'' then '''' else parts ! 2)
                       \<and> Application logLine
                           = (if parts ! 3 = ''[unknown]'' then '''' else parts ! 3)
                  else Content logLine = payload)"
proof -
  let ?raw = "FindStringSubmatch RsyslogRegexp line ! 7"
  obtain pieces where ps: "pieces \<noteq> []" "?raw = join ''#011'' pieces"
    "Replace ?raw ''#011'' [CHR 0x09] = join [CHR 0x09] pieces"
    "\<forall>p \<in> set pieces. \<not> occurs ''#011'' p"
    using Replace_pieces [of "''#011''" ?raw "[CHR 0x09]"] by auto
  let ?payload = "join [CHR 0x09] pieces"
  let ?parts = "FindStringSubmatch LogPrefixNoTimestampUserDatabaseAppRegexp ?payload"
  from assms have g: "parseWithGrammar env '''' True line = (logLine, True)"
    by (simp add: ParseLogLineWithPrefix_def)
  then obtain p where sp: "syslogParts env line = Some p"
    and f: "finishLogLine env ''2006 Jan  2 15:04:05'' '''' p LogLine_zero = (logLine, True)"
    by (auto simp: parseWithGrammar_def split: option.splits)
  note fl = finishLogLine_fields [OF f]
  have "if length ?parts = 6
        then contentPart p = ?parts ! 5 \<and> userPart p = ?parts ! 1 \<and> dbPart p = ?parts ! 2
             \<and> appPart p = ?parts ! 3
        else contentPart p = ?payload"
    using sp ps(3)
    by (auto simp: syslogParts_def Let_def Parts_zero_def split: if_splits)
  then have "let payload = ?payload;
                 parts = FindStringSubmatch LogPrefixNoTimestampUserDatabaseAppRegexp payload
             in if length parts = 6
                then Content logLine = parts ! 5
                     \<and> Username logLine = (if parts ! 1 = ''[unknown]'' then '''' else parts ! 1)
                     \<and> Database logLine = (if parts ! 2 = ''[unknown]'' then '''' else parts ! 2)
                     \<and> Application logLine
                         = (if parts ! 3 = ''[unknown]'' then '''' else parts ! 3)
                else Content logLine = payload"
    unfolding Let_def using fl by (auto split: if_splits)
  with ps(1,2,4) show ?thesis by blast
qed

lemma parse_sample_syslog:
  "ParseLogLineWithPrefix sample_env '''' sample_syslog
     = (LogLine_zero\<lparr>OccurredAt := 1517521711000000000, LogLevel := 6, BackendPid := 9076,
          Content := [CHR ''a'', CHR 0x09, CHR ''b'', CHR 0x0A]\<rparr>, True)"
  by code_simp

lemma find_sample_syslog:
  "FindStringSubmatch RsyslogRegexp sample_syslog ! 7 = ''a#011b\<newline>''"
  by code_simp

theorem syslog_payload_tabs_replaced_witness:
  "detectPrefix sample_syslog = ('''', True)
   \<and> ParseLogLineWithPrefix sample_env '''' sample_syslog
       = (LogLine_zero\<lparr>OccurredAt := 1517521711000000000, LogLevel := 6, BackendPid := 9076,
            Content := [CHR ''a'', CHR 0x09, CHR ''b'', CHR 0x0A]\<rparr>, True)
   \<and> FindStringSubmatch RsyslogRegexp sample_syslog ! 7 = ''a#011b\<newline>''
   \<and> ''a#011b\<newline>'' = join ''#011'' [''a'', ''b\<newline>'']
   \<and> [CHR ''a'', CHR 0x09, CHR ''b'', CHR 0x0A] = join [CHR 0x09] [''a'', ''b\<newline>'']
   \<and> (\<exists>pieces. pieces \<noteq> [] \<and> ''a#011b\<newline>'' = join ''#011'' pieces
         \<and> \<not> list_ex (occurs ''#011'') pieces)"
proof -
  have d: "detectPrefix sample_syslog = ('''', True)"
    by code_simp
  have "\<exists>pieces. pieces \<noteq> [] \<and> ''a#011b\<newline>'' = join ''#011'' pieces
          \<and> \<not> list_ex (occurs ''#011'') pieces"
    using syslog_payload_tabs_replaced [OF d parse_sample_syslog]
    by (simp only: find_sample_syslog list_ex_iff) blast
  with d parse_sample_syslog find_sample_syslog show ?thesis
    by simp
qed

section \<open>The order of the grammars\<close>

lemma MatchString_attempt: "anchored r \<Longrightarrow> MatchString r s \<longleftrightarrow> attempt r s s \<noteq> None"
  by (simp add: MatchString_def search_anchored)

lemma star_blocked:
  "blocked A k \<Longrightarrow> (\<And>x. atom_ok a x \<Longrightarrow> A x) \<Longrightarrow>
     star a k s c = k (dropWhile (atom_ok a) s) c"
proof (induction s)
  case Nil
  then show ?case by simp
next
  case (Cons x xs)
  show ?case
  proof (cases "atom_ok a x")
    case True
    then have "k (x # xs) c = None"
      using Cons.prems by (simp add: blocked_def)
    with True Cons show ?thesis
      by (simp split: option.splits)
  next
    case False
    then show ?thesis by simp
  qed
qed

lemma plain_run:
  "plain r \<Longrightarrow> rmatch r n i k s c = Some res \<Longrightarrow> k (drop (width r) s) c = Some res"
proof (induction r arbitrary: i k s)
  case (Atom a)
  then show ?case by (auto split: list.splits if_splits)
next
  case (Seq r1 r2)
  from Seq.prems have p: "plain r1" "plain r2"
    and m: "rmatch r1 n i (rmatch r2 n (i + ngroups r1) k) s c = Some res"
    by simp_all
  have 1: "rmatch r2 n (i + ngroups r1) k (drop (width r1) s) c = Some res"
    by (rule Seq.IH(1) [OF p(1) m])
  have "k (drop (width r2) (drop (width r1) s)) c = Some res"
    by (rule Seq.IH(2) [OF p(2) 1])
  then show ?case by (simp add: add.commute)
qed simp_all

lemma instep_plain: "plain r \<Longrightarrow> instep r A"
  unfolding instep_def by (blast dest: plain_run)

lemma instep_Bot: "instep Bot A"
  unfolding instep_def by (auto split: if_splits)

lemma instep_Plus: "(\<And>x. atom_ok a x \<Longrightarrow> A x) \<Longrightarrow> instep (Plus a) A"
  unfolding instep_def
  by (auto simp: star_blocked split: list.splits if_splits)

lemma instep_Seq:
  assumes "instep r1 A1" and "nostart r2 A1" and "instep r2 A"
  shows "instep (Seq r1 r2) A"
  unfolding instep_def
proof (intro allI impI)
  fix n i1 i2 k1 k2 s c1 c2 r1' r2'
  assume b: "blocked A k1" "blocked A k2"
    and m1: "rmatch (Seq r1 r2) n i1 k1 s c1 = Some r1'"
    and m2: "rmatch (Seq r1 r2) n i2 k2 s c2 = Some r2'"
  let ?K1 = "rmatch r2 n (i1 + ngroups r1) k1" and ?K2 = "rmatch r2 n (i2 + ngroups r1) k2"
  have "blocked A1 ?K1" "blocked A1 ?K2"
    using assms(2) by (simp_all add: nostart_def)
  moreover have "rmatch r1 n i1 ?K1 s c1 = Some r1'" "rmatch r1 n i2 ?K2 s c2 = Some r2'"
    using m1 m2 by simp_all
  ultimately obtain s' c1' c2' where "?K1 s' c1' = Some r1'" "?K2 s' c2' = Some r2'"
    using assms(1) unfolding instep_def by blast
  with b show "\<exists>s' c1' c2'. k1 s' c1' = Some r1' \<and> k2 s' c2' = Some r2'"
    using assms(3) unfolding instep_def by blast
qed

lemma instep_Opt:
  assumes "instep r A" and "starts r A"
  shows "instep (Opt r) A"
  unfolding instep_def
proof (intro allI impI)
  fix n i1 i2 k1 k2 s c1 c2 r1' r2'
  assume b: "blocked A k1" "blocked A k2"
    and m1: "rmatch (Opt r) n i1 k1 s c1 = Some r1'"
    and m2: "rmatch (Opt r) n i2 k2 s c2 = Some r2'"
  have skip: "k s c = None" if "blocked A k" "rmatch r n i k' s c' \<noteq> None"
    for k k' :: "(string list) cont" and i c c'
  proof -
    from that(2) assms(2) obtain x xs where "s = x # xs" "A x"
      unfolding starts_def by blast
    with that(1) show ?thesis by (simp add: blocked_def)
  qed
  show "\<exists>s' c1' c2'. k1 s' c1' = Some r1' \<and> k2 s' c2' = Some r2'"
  proof (cases "rmatch r n i1 k1 s c1 = None \<and> rmatch r n i2 k2 s c2 = None")
    case True
    with m1 m2 have "k1 s c1 = Some r1'" "k2 s c2 = Some r2'" by simp_all
    then show ?thesis by blast
  next
    case False
    then have "k1 s c1 = None" "k2 s c2 = None"
      using skip [OF b(1)] skip [OF b(2)] by blast+
    with m1 m2 have "rmatch r n i1 k1 s c1 = Some r1'" "rmatch r n i2 k2 s c2 = Some r2'"
      by (auto split: option.splits)
    with b assms(1) show ?thesis
      unfolding instep_def by blast
  qed
qed

lemma instep_Grp:
  assumes "instep r A"
  shows "instep (Grp r) A"
  unfolding instep_def
proof (intro allI impI)
  fix n i1 i2 k1 k2 s c1 c2 r1' r2'
  assume b: "blocked A k1" "blocked A k2"
    and m1: "rmatch (Grp r) n i1 k1 s c1 = Some r1'"
    and m2: "rmatch (Grp r) n i2 k2 s c2 = Some r2'"
  let ?K1 = "\<lambda>s' c'. k1 s' (c'[i1 := take (length s - length s') s])"
  let ?K2 = "\<lambda>s' c'. k2 s' (c'[i2 := take (length s - length s') s])"
  have "blocked A ?K1" "blocked A ?K2"
    using b by (simp_all add: blocked_def)
  moreover have "rmatch r n (Suc i1) ?K1 s c1 = Some r1'" "rmatch r n (Suc i2) ?K2 s c2 = Some r2'"
    using m1 m2 by simp_all
  ultimately obtain s' c1' c2' where "?K1 s' c1' = Some r1'" "?K2 s' c2' = Some r2'"
    using assms unfolding instep_def by blast
  then show "\<exists>s' c1' c2'. k1 s' c1' = Some r1' \<and> k2 s' c2' = Some r2'"
    by blast
qed

lemma nostart_none: "nostart r (\<lambda>x. False)"
  by (simp add: nostart_def blocked_def)

lemma nostart_Atom: "(\<And>x. A x \<Longrightarrow> \<not> atom_ok a x) \<Longrightarrow> nostart (Atom a) A"
  by (auto simp: nostart_def blocked_def)

lemma nostart_Plus: "(\<And>x. A x \<Longrightarrow> \<not> atom_ok a x) \<Longrightarrow> nostart (Plus a) A"
  by (auto simp: nostart_def blocked_def)

lemma nostart_Seq: "nostart r1 A \<Longrightarrow> nostart (Seq r1 r2) A"
  by (simp add: nostart_def)

lemma starts_Atom:
  assumes "\<And>x. atom_ok a x \<Longrightarrow> A x"
  shows "starts (Atom a) A"
  unfolding starts_def
proof (intro allI impI)
  fix n i and k :: "(string list) cont" and s c
  assume "rmatch (Atom a) n i k s c \<noteq> None"
  then show "\<exists>x xs. s = x # xs \<and> A x"
    using assms by (cases s) (auto split: if_splits)
qed

lemma starts_Seq: "starts r1 A \<Longrightarrow> starts (Seq r1 r2) A"
  by (simp add: starts_def)

lemma starts_Atom_self: "starts (Atom a) (atom_ok a)"
  by (rule starts_Atom)

lemma starts_Lit: "starts (Atom (Lit a)) (\<lambda>x. x = a)"
  by (rule starts_Atom) simp

lemma starts_str: "starts (str (a # cs)) (\<lambda>x. x = a)"
  by (cases cs) (simp_all add: starts_Lit starts_Seq)

lemma instep_Plus_self: "instep (Plus a) (atom_ok a)"
  by (rule instep_Plus)

lemma nostart_str: "\<not> A a \<Longrightarrow> nostart (str (a # cs)) A"
  by (cases cs) (auto intro!: nostart_Atom nostart_Seq)

lemma nostart_cat: "nostart r A \<Longrightarrow> nostart (cat (r # rs)) A"
  by (cases rs) (auto intro: nostart_Seq)

lemma starts_cat: "starts r A \<Longrightarrow> starts (cat (r # rs)) A"
  by (cases rs) (auto intro: starts_Seq)

lemma plain_str: "plain (str s)"
  by (induction s rule: str.induct) simp_all

lemma plain_rep: "plain (rep m a)"
  by (induction m a rule: rep.induct) simp_all

lemma instep_cat:
  "instep r A1 \<Longrightarrow> nostart (cat rs) A1 \<Longrightarrow> instep (cat rs) A \<Longrightarrow> rs \<noteq> [] \<Longrightarrow>
     instep (cat (r # rs)) A"
  by (cases rs) (auto intro: instep_Seq)

lemma instep_cat_plain:
  "plain r \<Longrightarrow> instep (cat rs) A \<Longrightarrow> rs \<noteq> [] \<Longrightarrow> instep (cat (r # rs)) A"
  by (rule instep_cat [where ?A1.0 = "\<lambda>x. False"]) (simp_all add: instep_plain nostart_none)

lemma instep_cat_plains:
  "list_all plain ps \<Longrightarrow> instep (cat rs) A \<Longrightarrow> rs \<noteq> [] \<Longrightarrow> instep (cat (ps @ rs)) A"
  by (induction ps) (simp_all add: instep_cat_plain)

lemma word_facts:
  "\<not> atom_ok WordCh (CHR '' '')" "\<not> atom_ok WordCh (CHR '':'')" "\<not> atom_ok WordCh (CHR ''-'')"
  "\<not> atom_ok WordCh (CHR ''+'')" "\<not> atom_ok WordCh (CHR '']'')" "\<not> atom_ok WordCh (CHR ''['')"
  "\<not> isDigit (CHR '' '')" "\<not> isDigit (CHR '']'')" "\<not> isDigit (CHR ''-'')"
  "\<not> isDigit (CHR ''.'')"
  by (simp_all add: isDigit_def between_def)

lemma instep_TimeRegexp: "instep TimeRegexp (atom_ok WordCh)"
proof -
  let ?sign = "Either (Lit CHR ''-'') (Lit CHR ''+'')"
  let ?frac = "cat [str ''.'', Plus Digit]"
  have zone: "instep (cat [Opt (Atom ?sign), Plus WordCh]) (atom_ok WordCh)"
  proof (rule instep_cat [where ?A1.0 = "atom_ok ?sign"])
    show "instep (Opt (Atom ?sign)) (atom_ok ?sign)"
      by (rule instep_Opt) (simp_all add: instep_plain starts_Atom_self)
    show "nostart (cat [Plus WordCh]) (atom_ok ?sign)"
      using word_facts by (auto intro!: nostart_Plus)
    show "instep (cat [Plus WordCh]) (atom_ok WordCh)"
      by (simp add: instep_Plus_self)
  qed simp
  have space: "instep (cat [str '' '', Opt (Atom ?sign), Plus WordCh]) (atom_ok WordCh)"
    by (rule instep_cat_plain [OF plain_str zone]) simp
  let ?A = "\<lambda>x. x = CHR ''.'' \<or> isDigit x"
  have "instep (Plus Digit) ?A"
    by (rule instep_Plus) simp
  then have "instep ?frac ?A"
    by (intro instep_cat_plain [OF plain_str]) simp_all
  moreover have "starts (str ''.'') ?A"
    by (simp only: str.simps) (rule starts_Atom, simp)
  then have "starts ?frac ?A"
    by (rule starts_cat)
  ultimately have "instep (Opt ?frac) ?A"
    by (rule instep_Opt)
  moreover have "\<not> ?A (CHR '' '')"
    using word_facts by simp
  then have "nostart (str '' '') ?A"
    by (rule nostart_str)
  then have "nostart (cat [str '' '', Opt (Atom ?sign), Plus WordCh]) ?A"
    by (rule nostart_cat)
  ultimately have
    "instep (cat [Opt ?frac, str '' '', Opt (Atom ?sign), Plus WordCh]) (atom_ok WordCh)"
    using space by (rule instep_cat) simp
  then have "instep (cat ([rep 4 Digit, str ''-'', rep 2 Digit, str ''-'', rep 2 Digit, str '' '',
     rep 2 Digit, str '':'', rep 2 Digit, str '':'', rep 2 Digit] @ [Opt ?frac,
     str '' '', Opt (Atom ?sign), Plus WordCh])) (atom_ok WordCh)"
    by (rule instep_cat_plains [rotated]) (simp_all add: plain_str plain_rep)
  then have "instep (cat [rep 4 Digit, str ''-'', rep 2 Digit, str ''-'', rep 2 Digit, str '' '',
     rep 2 Digit, str '':'', rep 2 Digit, str '':'', rep 2 Digit, Opt ?frac,
     str '' '', Opt (Atom ?sign), Plus WordCh]) (atom_ok WordCh)"
    by (simp only: append_Cons append_Nil)
  then show ?thesis
    unfolding TimeRegexp_def by (rule instep_Grp)
qed

lemma ngroups_cat: "ngroups (cat (r # rs)) = ngroups r + ngroups (cat rs)"
  by (cases rs) simp_all

lemma rmatch_cat_append:
  "rs \<noteq> [] \<Longrightarrow>
     rmatch (cat (ps @ rs)) n i k
       = rmatch (cat ps) n i (rmatch (cat rs) n (i + ngroups (cat ps)) k)"
proof (induction ps arbitrary: i)
  case Nil
  then show ?case by simp
next
  case (Cons p ps)
  have "rmatch (cat (p # ps @ rs)) n i k
          = rmatch p n i (rmatch (cat (ps @ rs)) n (i + ngroups p) k)"
    using Cons.prems by (cases "ps @ rs") simp_all
  also have "\<dots> = rmatch p n i
                     (rmatch (cat ps) n (i + ngroups p)
                        (rmatch (cat rs) n (i + ngroups p + ngroups (cat ps)) k))"
    using Cons by simp
  also have "\<dots> = rmatch (cat (p # ps)) n i
                     (rmatch (cat rs) n (i + ngroups (cat (p # ps))) k)"
    by (cases ps) (simp_all add: add.assoc)
  finally show ?case by simp
qed

lemma rmatch_cat_head:
  assumes "rmatch (cat (t # rs)) n i (k :: (string list) cont) s c \<noteq> None"
  shows "\<exists>k' :: (string list) cont. rmatch t n i k' s c \<noteq> None"
proof (cases rs)
  case Nil
  with assms have "rmatch t n i k s c \<noteq> None" by simp
  then show ?thesis by blast
next
  case (Cons r rs')
  with assms have "rmatch t n i (rmatch (cat (r # rs')) n (i + ngroups t) k) s c \<noteq> None"
    by simp
  then show ?thesis by blast
qed

lemma diverge:
  assumes pre: "instep (cat pre) A"
    and m1: "attempt (cat (pre @ t1 # rs1)) s s \<noteq> None"
    and m2: "attempt (cat (pre @ t2 # rs2)) s s \<noteq> None"
    and n1: "nostart t1 A" and n2: "nostart t2 A"
    and clash: "\<And>n i1 i2 (k1 :: (string list) cont) (k2 :: (string list) cont) s c1 c2.
                  rmatch t1 n i1 k1 s c1 \<noteq> None \<Longrightarrow> rmatch t2 n i2 k2 s c2 \<noteq> None \<Longrightarrow> False"
  shows False
proof -
  let ?n = "length s"
  let ?k = "\<lambda>s' c. Some (c[0 := take (length s - length s') s])"
  let ?K1 = "rmatch (cat (t1 # rs1)) ?n (1 + ngroups (cat pre)) ?k"
  let ?K2 = "rmatch (cat (t2 # rs2)) ?n (1 + ngroups (cat pre)) ?k"
  from m1 obtain r1 where
    "rmatch (cat pre) ?n 1 ?K1 s (replicate (Suc (ngroups (cat (pre @ t1 # rs1)))) []) = Some r1"
    by (auto simp: attempt_def rmatch_cat_append)
  moreover from m2 obtain r2 where
    "rmatch (cat pre) ?n 1 ?K2 s (replicate (Suc (ngroups (cat (pre @ t2 # rs2)))) []) = Some r2"
    by (auto simp: attempt_def rmatch_cat_append)
  moreover have "blocked A ?K1" "blocked A ?K2"
    using nostart_cat [OF n1] nostart_cat [OF n2] by (simp_all add: nostart_def)
  ultimately obtain s' c1' c2' where "?K1 s' c1' = Some r1" "?K2 s' c2' = Some r2"
    using pre unfolding instep_def by blast
  then have h: "?K1 s' c1' \<noteq> None" "?K2 s' c2' \<noteq> None"
    by simp_all
  obtain k1 :: "(string list) cont"
    where 1: "rmatch t1 ?n (1 + ngroups (cat pre)) k1 s' c1' \<noteq> None"
    using rmatch_cat_head [OF h(1)] by blast
  obtain k2 :: "(string list) cont"
    where 2: "rmatch t2 ?n (1 + ngroups (cat pre)) k2 s' c2' \<noteq> None"
    using rmatch_cat_head [OF h(2)] by blast
  from 1 2 show False
    by (rule clash)
qed

lemma instep_Bot_Time: "instep (cat [Bot, TimeRegexp]) (atom_ok WordCh)"
  by (rule instep_cat [where ?A1.0 = "\<lambda>x. False"])
     (simp_all add: instep_Bot nostart_none instep_TimeRegexp)

lemma instep_Bot_Time_Pid:
  "instep (cat [Bot, TimeRegexp, str '' ['', PidRegexp]) isDigit"
proof -
  have "instep (Plus Digit) isDigit"
    by (rule instep_Plus) simp
  then have "instep (cat [PidRegexp]) isDigit"
    by (simp add: PidRegexp_def instep_Grp)
  then have p: "instep (cat [str '' ['', PidRegexp]) isDigit"
    by (rule instep_cat_plain [OF plain_str]) simp
  have "nostart (str '' ['') (atom_ok WordCh)"
    by (rule nostart_str) (rule word_facts)
  then have "nostart (cat [str '' ['', PidRegexp]) (atom_ok WordCh)"
    by (rule nostart_cat)
  with instep_TimeRegexp have "instep (cat [TimeRegexp, str '' ['', PidRegexp]) isDigit"
    using p by (rule instep_cat) simp
  then show ?thesis
    by (rule instep_cat [where ?A1.0 = "\<lambda>x. False", OF instep_Bot nostart_none]) simp
qed

lemma clash_first:
  assumes "a \<noteq> b"
    and "rmatch (str (a # as)) n i1 (k1 :: (string list) cont) s c1 \<noteq> None"
    and "rmatch (str (b # bs)) n i2 (k2 :: (string list) cont) s c2 \<noteq> None"
  shows False
proof -
  from assms(2) starts_str [of a as] obtain xs where "s = a # xs"
    unfolding starts_def by blast
  moreover from assms(3) starts_str [of b bs] obtain ys where "s = b # ys"
    unfolding starts_def by blast
  ultimately show False using assms(1) by simp
qed

lemma clash_second:
  assumes "rmatch (str '']['') n i1 k1 s c1 \<noteq> None"
    and "rmatch (str ''] '') n i2 k2 s c2 \<noteq> None"
  shows False
  using assms by (auto split: list.splits if_splits)

lemma Custom4_not_AmazonRds:
  assumes "MatchString LogPrefixCustom4Regexp s"
  shows "\<not> MatchString LogPrefixAmazonRdsRegxp s"
proof
  assume "MatchString LogPrefixAmazonRdsRegxp s"
  then have "attempt (cat ([Bot, TimeRegexp] @ str '':'' # [HostAndPortRegexp, str '':'',
     UserRegexp, str ''@'', DbRegexp, str '':['', PidRegexp, str '']:'', LevelAndContentRegexp]))
     s s \<noteq> None"
    by (simp add: MatchString_attempt LogPrefixAmazonRdsRegxp_def)
  moreover from assms have "attempt (cat ([Bot, TimeRegexp] @ str '' ['' # [PidRegexp, str ''] '',
     Opt (cat [str ''[user='', UserRegexp, str '',db='', DbRegexp, str '',app='', AppRegexp,
               str '',host='', HostRegexp, str ''] '']),
     LevelAndContentRegexp])) s s \<noteq> None"
    by (simp add: MatchString_attempt LogPrefixCustom4Regexp_def)
  ultimately show False
  proof (rule diverge [OF instep_Bot_Time])
    show "nostart (str '':'') (atom_ok WordCh)"
      by (rule nostart_str) (rule word_facts)
    show "nostart (str '' ['') (atom_ok WordCh)"
      by (rule nostart_str) (rule word_facts)
  next
    fix n i1 i2 and k1 k2 :: "(string list) cont" and s' c1 c2
    assume "rmatch (str '':'') n i1 k1 s' c1 \<noteq> None" "rmatch (str '' ['') n i2 k2 s' c2 \<noteq> None"
    then show False
      by (rule clash_first [rotated]) simp
  qed
qed

lemma Custom4_prefix:
  assumes "MatchString LogPrefixCustom4Regexp s"
  shows "attempt (cat ([Bot, TimeRegexp, str '' ['', PidRegexp] @ str ''] '' #
     [Opt (cat [str ''[user='', UserRegexp, str '',db='', DbRegexp, str '',app='', AppRegexp,
                str '',host='', HostRegexp, str ''] '']),
      LevelAndContentRegexp])) s s \<noteq> None"
  using assms by (simp add: MatchString_attempt LogPrefixCustom4Regexp_def)

lemma Custom4_not_Custom1:
  assumes "MatchString LogPrefixCustom4Regexp s"
  shows "\<not> MatchString LogPrefixCustom1Regexp s"
proof
  assume "MatchString LogPrefixCustom1Regexp s"
  then have "attempt (cat ([Bot, TimeRegexp, str '' ['', PidRegexp] @ str '']['' #
     [VirtualTxRegexp, str ''] : ['', LogLineCounterRegexp, str ''-1] '',
      Opt (cat [str ''[app='', AppRegexp, str ''] '']), LevelAndContentRegexp])) s s \<noteq> None"
    by (simp add: MatchString_attempt LogPrefixCustom1Regexp_def)
  then show False
    using Custom4_prefix [OF assms]
  proof (rule diverge [OF instep_Bot_Time_Pid])
    show "nostart (str '']['') isDigit"
      by (rule nostart_str) (rule word_facts)
    show "nostart (str ''] '') isDigit"
      by (rule nostart_str) (rule word_facts)
  next
    fix n i1 i2 and k1 k2 :: "(string list) cont" and s' c1 c2
    assume "rmatch (str '']['') n i1 k1 s' c1 \<noteq> None" "rmatch (str ''] '') n i2 k2 s' c2 \<noteq> None"
    then show False
      by (rule clash_second)
  qed
qed

lemma Custom4_not_Custom2:
  assumes "MatchString LogPrefixCustom4Regexp s"
  shows "\<not> MatchString LogPrefixCustom2Regexp s"
proof
  assume "MatchString LogPrefixCustom2Regexp s"
  then have "attempt (cat ([Bot, TimeRegexp, str '' ['', PidRegexp] @ str ''-'' #
     [LogLineCounterRegexp, str ''] '', Opt (cat [UserRegexp, str ''@'', DbRegexp, str '' '']),
      LevelAndContentRegexp])) s s \<noteq> None"
    by (simp add: MatchString_attempt LogPrefixCustom2Regexp_def)
  then show False
    using Custom4_prefix [OF assms]
  proof (rule diverge [OF instep_Bot_Time_Pid])
    show "nostart (str ''-'') isDigit"
      by (rule nostart_str) (rule word_facts)
    show "nostart (str ''] '') isDigit"
      by (rule nostart_str) (rule word_facts)
  next
    fix n i1 i2 and k1 k2 :: "(string list) cont" and s' c1 c2
    assume "rmatch (str ''-'') n i1 k1 s' c1 \<noteq> None" "rmatch (str ''] '') n i2 k2 s' c2 \<noteq> None"
    then show False
      by (rule clash_first [rotated]) simp
  qed
qed

lemma anchored_grammars:
  "anchored LogPrefixAmazonRdsRegxp" "anchored LogPrefixCustom1Regexp"
  "anchored LogPrefixCustom2Regexp" "anchored LogPrefixCustom3Regexp"
  "anchored LogPrefixCustom4Regexp" "anchored LogPrefixCustom5Regexp"
  "anchored LogPrefixCustom6Regexp" "anchored LogPrefixCustom7Regexp"
  "anchored LogPrefixSimpleRegexp" "anchored RsyslogRegexp"
  by (simp_all add: LogPrefixAmazonRdsRegxp_def LogPrefixCustom1Regexp_def
        LogPrefixCustom2Regexp_def LogPrefixCustom3Regexp_def LogPrefixCustom4Regexp_def
        LogPrefixCustom5Regexp_def LogPrefixCustom6Regexp_def LogPrefixCustom7Regexp_def
        LogPrefixSimpleRegexp_def RsyslogRegexp_def)

text \<open>
  C5. With no prefix given, the grammar that \<open>ParseLogLineWithPrefix\<close> uses is the first
  one, in the order Amazon RDS, custom 1, custom 2, custom 4, custom 3, custom 5, custom 6,
  custom 7, simple, whose pattern matches the line from its start, and the syslog wrapper
  when none of them does and its pattern matches. A line that matches the patterns of both
  custom format 3 and custom format 4 is given custom format 4: no pattern earlier in the
  order matches a line that the pattern of custom format 4 matches.
\<close>

theorem grammar_order:
  "detectPrefix line = firstMatchingGrammar line
   \<and> (MatchString LogPrefixCustom3Regexp line \<and> MatchString LogPrefixCustom4Regexp line \<longrightarrow>
        detectPrefix line = (LogPrefixCustom4, False))"
proof
  show "detectPrefix line = firstMatchingGrammar line"
    by (simp add: detectPrefix_def firstMatchingGrammar_def grammarOrder_def
          MatchString_attempt anchored_grammars)
  show "MatchString LogPrefixCustom3Regexp line \<and> MatchString LogPrefixCustom4Regexp line \<longrightarrow>
          detectPrefix line = (LogPrefixCustom4, False)"
    using Custom4_not_AmazonRds [of line] Custom4_not_Custom1 [of line]
      Custom4_not_Custom2 [of line]
    by (simp add: detectPrefix_def)
qed

theorem grammar_order_witness:
  "MatchString LogPrefixCustom3Regexp sample_custom4
   \<and> MatchString LogPrefixCustom4Regexp sample_custom4
   \<and> detectPrefix sample_custom4 = (LogPrefixCustom4, False)
   \<and> firstMatchingGrammar sample_custom4 = (LogPrefixCustom4, False)
   \<and> prefixParts LogPrefixCustom3 sample_custom4 \<noteq> prefixParts LogPrefixCustom4 sample_custom4"
proof -
  have 3: "MatchString LogPrefixCustom3Regexp sample_custom4"
    by code_simp
  have 4: "MatchString LogPrefixCustom4Regexp sample_custom4"
    by code_simp
  have p3: "prefixParts LogPrefixCustom3 sample_custom4
              = Some (Parts_zero\<lparr>timePart := ''2018-05-04 03:48:18 UTC'', userPart := ''u'',
                        dbPart := ''d'', appPart := ''a,host=h'', pidPart := ''3184'',
                        levelPart := ''LOG'', contentPart := ''hello\<newline>''\<rparr>, LogLine_zero)"
    by code_simp
  have p4: "prefixParts LogPrefixCustom4 sample_custom4
              = Some (Parts_zero\<lparr>timePart := ''2018-05-04 03:48:18 UTC'', userPart := ''u'',
                        dbPart := ''d'', appPart := ''a'', pidPart := ''3184'',
                        levelPart := ''LOG'', contentPart := ''hello\<newline>''\<rparr>, LogLine_zero)"
    by code_simp
  show ?thesis
    using grammar_order [of sample_custom4] 3 4 by (auto simp: p3 p4 Parts_zero_def)
qed

end
